theory Spec2Isabelle
  imports Main
begin

section \<open>Outcomes of a call\<close>

text \<open>
  A Go call either returns (a value, or an error value), or it does not return: it panics,
  it blocks on a lock or a channel, or it recurses without end. The last case is the value
  \<open>OutOfFuel\<close> of the functions below that take a recursion budget.
\<close>

datatype error =
    BusNotStarted                \<comment> \<open>"message bus not started"\<close>
  | BusAlreadyStarted            \<comment> \<open>"message bus already started"\<close>
  | ContextError string          \<comment> \<open>\<open>ctx.Err()\<close> of a context that is done\<close>
  | HandlerError string          \<comment> \<open>an error value returned by user code (handler, constructor, factory)\<close>
  | NoBinding string             \<comment> \<open>"no binding found for <key>"\<close>
  | NotAPointer                  \<comment> \<open>"target must be a pointer"\<close>
  | NotAStructPointer            \<comment> \<open>"target must be a pointer to a struct"\<close>
  | BadConstructor               \<comment> \<open>"constructor must return 1 or 2 values"\<close>
  | ArgFailed nat error          \<comment> \<open>"failed to resolve constructor arg <i>: <err>"\<close>
  | FieldFailed string error     \<comment> \<open>"failed to resolve <field>: <err>"\<close>

datatype failure =
    Err error                    \<comment> \<open>the call returns this error\<close>
  | Panic string                 \<comment> \<open>the call panics\<close>
  | Blocked                      \<comment> \<open>the call waits, on a channel or on a lock\<close>
  | OutOfFuel                    \<comment> \<open>the recursion budget of the model is used up\<close>

text \<open>The outcome of a call: \<open>Inr\<close> what it returns, or \<open>Inl\<close> why it does not.\<close>

type_synonym 'a outcome = "failure + 'a"

section \<open>The message bus\<close>

subsection \<open>Data\<close>

text \<open>\<open>BaseMessage\<close>: the bus reads only the slug and the type of a message.\<close>

record message =
  MessageSlug :: string
  MessageType :: string

text \<open>
  A \<open>MessageHandler\<close>: \<open>hid\<close> is the identity of the handler value (what \<open>%p\<close> prints),
  \<open>Handle\<close> its method. The handler acts on a world \<open>'w\<close> outside the bus and returns
  an error or nil; the response message is not used by the bus.
\<close>

record 'w handler =
  hid :: nat
  Handle :: "message \<Rightarrow> 'w \<Rightarrow> error option \<times> 'w"

text \<open>
  \<open>messageEnvelope\<close>. The \<open>done\<close> channel of a synchronous envelope carries one value,
  which the model returns from the dispatch of that envelope.
\<close>

record envelope =
  msg :: message
  sync :: bool

text \<open>
  The \<open>bus\<close> struct. \<open>messages\<close> is the buffered channel (its queue, oldest first) and
  \<open>closed\<close> says whether \<open>close(b.messages)\<close> has run; \<open>cancelled\<close> is the state of
  \<open>b.ctx\<close>. \<open>spawned\<close> lists the goroutines that the dispatch loop has started for
  asynchronous envelopes (the ones the wait group tracks); when they run is not modelled.
\<close>

record 'w bus =
  subscribers :: "string \<rightharpoonup> 'w handler list"
  messages :: "envelope list"
  closed :: bool
  cancelled :: bool
  started :: bool
  spawned :: "('w handler \<times> message) list"

text \<open>
  How a wait of the caller against the dispatch loop ends when the caller's context is
  done at some time: the context is done before the loop has answered; the loop has
  answered and the \<open>select\<close> takes its answer; or the loop has answered, the context is
  done as well, and the \<open>select\<close>, free to choose, takes the context.
\<close>

datatype race = ContextFirst | AnswerTaken | AnswerPassedOver

text \<open>
  The caller's context: its Done channel never fires, or it fires, before the call or
  during it, with this error; the race says how a wait of the call then ends.
\<close>

datatype ctx = Background | Cancelled string race

definition capacity :: nat where
  "capacity = 100"

definition NewBus :: "'w bus" where
  "NewBus = \<lparr> subscribers = Map.empty, messages = [], closed = False,
              cancelled = False, started = False, spawned = [] \<rparr>"

subsection \<open>Subscriptions\<close>

definition Subscribe :: "string \<Rightarrow> 'w handler \<Rightarrow> 'w bus \<Rightarrow> 'w bus" where
  "Subscribe pattern h b =
     (let old = (case subscribers b pattern of None \<Rightarrow> [] | Some hs \<Rightarrow> hs)
      in b\<lparr> subscribers := (subscribers b)(pattern \<mapsto> old @ [h]) \<rparr>)"

text \<open>
  The loop of \<open>Unsubscribe\<close>: drop the first handler with the identity of \<open>h\<close>; a list
  without one stays as it is.
\<close>

fun remove_handler :: "'w handler \<Rightarrow> 'w handler list \<Rightarrow> 'w handler list" where
  "remove_handler h [] = []"
| "remove_handler h (x # xs) = (if hid x = hid h then xs else x # remove_handler h xs)"

definition Unsubscribe :: "string \<Rightarrow> 'w handler \<Rightarrow> 'w bus \<Rightarrow> 'w bus" where
  "Unsubscribe pattern h b =
     (case subscribers b pattern of
        None \<Rightarrow> b
      | Some hs \<Rightarrow> b\<lparr> subscribers := (subscribers b)(pattern \<mapsto> remove_handler h hs) \<rparr>)"

text \<open>
  \<open>getHandlers\<close>: three lookups, each appended to the slice built so far when the
  pattern is a key of the map.
\<close>

definition getHandlers :: "'w bus \<Rightarrow> message \<Rightarrow> 'w handler list" where
  "getHandlers b m =
     (let handlers = [];
          handlers = (case subscribers b (MessageSlug m) of
                        Some slugHandlers \<Rightarrow> handlers @ slugHandlers | None \<Rightarrow> handlers);
          handlers = (case subscribers b (MessageType m) of
                        Some typeHandlers \<Rightarrow> handlers @ typeHandlers | None \<Rightarrow> handlers);
          handlers = (case subscribers b ''*'' of
                        Some wildcardHandlers \<Rightarrow> handlers @ wildcardHandlers | None \<Rightarrow> handlers)
      in handlers)"

subsection \<open>The dispatch loop\<close>

text \<open>
  The synchronous branch of \<open>process\<close>: every handler is called, the errors are
  collected in \<open>errs\<close>.
\<close>

fun run_handlers :: "'w handler list \<Rightarrow> message \<Rightarrow> error list \<Rightarrow> 'w \<Rightarrow> error list \<times> 'w" where
  "run_handlers [] m errs w = (errs, w)"
| "run_handlers (h # hs) m errs w =
     (case Handle h m w of
        (Some e, w') \<Rightarrow> run_handlers hs m (errs @ [e]) w'
      | (None, w') \<Rightarrow> run_handlers hs m errs w')"

text \<open>What is sent on \<open>envelope.done\<close>: \<open>errs[0]\<close> when there is one, else nil.\<close>

definition done_signal :: "error list \<Rightarrow> error option" where
  "done_signal errs = (if length errs > 0 then Some (errs ! 0) else None)"

text \<open>
  One iteration of the loop of \<open>process\<close>, on the envelope taken from the channel.
  It returns what was sent on the envelope's \<open>done\<close> channel, if anything.
\<close>

definition process_envelope ::
  "'w bus \<Rightarrow> envelope \<Rightarrow> 'w \<Rightarrow> error option option \<times> 'w bus \<times> 'w" where
  "process_envelope b env w =
     (let handlers = getHandlers b (msg env) in
      if sync env then
        (let (errs, w') = run_handlers handlers (msg env) [] w
         in (Some (done_signal errs), b, w'))
      else
        (None, b\<lparr> spawned := spawned b @ map (\<lambda>h. (h, msg env)) handlers \<rparr>, w))"

text \<open>
  \<open>process\<close> run until the channel is empty: the envelopes are taken oldest first. The
  result lists the values sent on the \<open>done\<close> channels of the synchronous envelopes.
\<close>

fun process_queue ::
  "envelope list \<Rightarrow> 'w bus \<Rightarrow> 'w \<Rightarrow> error option list \<times> 'w bus \<times> 'w" where
  "process_queue [] b w = ([], b, w)"
| "process_queue (env # rest) b w =
     (case process_envelope b env w of
        (d, b', w') \<Rightarrow>
          (case process_queue rest b' w' of
             (ds, b'', w'') \<Rightarrow> ((case d of Some s \<Rightarrow> [s] | None \<Rightarrow> []) @ ds, b'', w'')))"

definition process :: "'w bus \<Rightarrow> 'w \<Rightarrow> error option list \<times> 'w bus \<times> 'w" where
  "process b w = process_queue (messages b) (b\<lparr> messages := [] \<rparr>) w"

subsection \<open>Publishing\<close>

text \<open>
  The \<open>select\<close> of \<open>Publish\<close> and \<open>PublishSync\<close>: the send can proceed when the channel
  has room, and also when it is closed (it then panics); the other case can proceed when
  the caller's context is done. \<open>pick\<close> says that the send is taken when it can proceed:
  the context is not done yet, or both cases can proceed and the choice of Go, made at
  random, falls on the send. With a context that is never done and no room, the call waits
  for the dispatch loop.
\<close>

datatype selected = Send | CtxDone error | Wait

definition select_send :: "'w bus \<Rightarrow> ctx \<Rightarrow> bool \<Rightarrow> selected" where
  "select_send b c pick =
     (let can_send = (closed b \<or> length (messages b) < capacity) in
      case c of
        Background \<Rightarrow> (if can_send then Send else Wait)
      | Cancelled e r \<Rightarrow> (if can_send \<and> pick then Send else CtxDone (ContextError e)))"

definition Publish :: "'w bus \<Rightarrow> ctx \<Rightarrow> bool \<Rightarrow> message \<Rightarrow> unit outcome \<times> 'w bus" where
  "Publish b c pick m =
     (if \<not> started b then (Inl (Err BusNotStarted), b)
      else
        (let envelope = \<lparr> msg = m, sync = False \<rparr> in
         case select_send b c pick of
           Send \<Rightarrow>
             (if closed b then (Inl (Panic ''send on closed channel''), b)
              else (Inr (), b\<lparr> messages := messages b @ [envelope] \<rparr>))
         | CtxDone e \<Rightarrow> (Inl (Err e), b)
         | Wait \<Rightarrow> (Inl Blocked, b)))"

text \<open>
  The caller of \<open>PublishSync\<close> receives from its \<open>done\<close> channel: the dispatch loop
  has worked through the queue up to the caller's envelope and sent the signal. The signal
  for this envelope is the last one sent, the envelope being the newest.
\<close>

definition receive_done :: "'w bus \<Rightarrow> 'w \<Rightarrow> unit outcome \<times> 'w bus \<times> 'w" where
  "receive_done b w =
     (case process b w of
        (ds, b2, w2) \<Rightarrow>
          (case rev ds of
             [] \<Rightarrow> (Inl Blocked, b2, w2)
           | None # _ \<Rightarrow> (Inr (), b2, w2)
           | Some err # _ \<Rightarrow> (Inl (Err err), b2, w2)))"

text \<open>
  \<open>PublishSync\<close>. After the send, the caller waits for its \<open>done\<close> channel and for
  its context. With a context that is never done it receives the signal. With a context
  that is done before the loop has answered it returns the error of the context, and the
  envelope is still in the queue; once the loop has answered it returns the signal, or the
  error of the context when the context is done too and the \<open>select\<close> takes it.
\<close>

definition PublishSync ::
  "'w bus \<Rightarrow> ctx \<Rightarrow> bool \<Rightarrow> message \<Rightarrow> 'w \<Rightarrow> unit outcome \<times> 'w bus \<times> 'w" where
  "PublishSync b c pick m w =
     (if \<not> started b then (Inl (Err BusNotStarted), b, w)
      else
        (let envelope = \<lparr> msg = m, sync = True \<rparr> in
         case select_send b c pick of
           Send \<Rightarrow>
             (if closed b then (Inl (Panic ''send on closed channel''), b, w)
              else
                (let b1 = b\<lparr> messages := messages b @ [envelope] \<rparr> in
                 case c of
                   Background \<Rightarrow> receive_done b1 w
                 | Cancelled e ContextFirst \<Rightarrow> (Inl (Err (ContextError e)), b1, w)
                 | Cancelled e AnswerTaken \<Rightarrow> receive_done b1 w
                 | Cancelled e AnswerPassedOver \<Rightarrow>
                     (case process b1 w of
                        (ds, b2, w2) \<Rightarrow> (Inl (Err (ContextError e)), b2, w2))))
         | CtxDone e \<Rightarrow> (Inl (Err e), b, w)
         | Wait \<Rightarrow> (Inl Blocked, b, w)))"

subsection \<open>Lifecycle\<close>

definition Start :: "'w bus \<Rightarrow> unit outcome \<times> 'w bus" where
  "Start b =
     (if started b then (Inl (Err BusAlreadyStarted), b)
      else (Inr (), b\<lparr> started := True \<rparr>))"

text \<open>
  \<open>Stop\<close>: cancel, close the channel, wait. Closing a closed channel panics. The wait
  ends with nil when the dispatch loop has emptied the channel and the \<open>select\<close> takes
  that; it ends with the error of the caller's context when the context is done before
  the loop has finished, or is done too when the loop has finished and the \<open>select\<close>
  takes the context.
\<close>

definition Stop :: "'w bus \<Rightarrow> ctx \<Rightarrow> 'w \<Rightarrow> unit outcome \<times> 'w bus \<times> 'w" where
  "Stop b c w =
     (if \<not> started b then (Inr (), b, w)
      else
        (let b1 = b\<lparr> cancelled := True \<rparr> in
         if closed b1 then (Inl (Panic ''close of closed channel''), b1, w)
         else
           (let b2 = b1\<lparr> closed := True \<rparr> in
            case c of
              Background \<Rightarrow>
                (case process b2 w of (ds, b3, w3) \<Rightarrow> (Inr (), b3, w3))
            | Cancelled e ContextFirst \<Rightarrow> (Inl (Err (ContextError e)), b2, w)
            | Cancelled e AnswerTaken \<Rightarrow>
                (case process b2 w of (ds, b3, w3) \<Rightarrow> (Inr (), b3, w3))
            | Cancelled e AnswerPassedOver \<Rightarrow>
                (case process b2 w of (ds, b3, w3) \<Rightarrow> (Inl (Err (ContextError e)), b3, w3)))))"

subsection \<open>What the specification calls these things\<close>

text \<open>The handler list subscribed under a pattern, in the order of subscription.\<close>

definition subscribed :: "'w bus \<Rightarrow> string \<Rightarrow> 'w handler list" where
  "subscribed b pattern = (case subscribers b pattern of None \<Rightarrow> [] | Some hs \<Rightarrow> hs)"

text \<open>A sequence of \<open>Subscribe\<close> calls, and the handlers it subscribes under a pattern.\<close>

fun subscribe_all :: "(string \<times> 'w handler) list \<Rightarrow> 'w bus \<Rightarrow> 'w bus" where
  "subscribe_all [] b = b"
| "subscribe_all ((p, h) # subs) b = subscribe_all subs (Subscribe p h b)"

definition under :: "(string \<times> 'w handler) list \<Rightarrow> string \<Rightarrow> 'w handler list" where
  "under subs pattern = map snd (filter (\<lambda>s. fst s = pattern) subs)"

text \<open>
  The first error that a handler of the list returns, the handlers being called in order,
  each in the world the one before left.
\<close>

fun first_error :: "'w handler list \<Rightarrow> message \<Rightarrow> 'w \<Rightarrow> error option" where
  "first_error [] m w = None"
| "first_error (h # hs) m w =
     (case Handle h m w of
        (Some e, w') \<Rightarrow> Some e
      | (None, w') \<Rightarrow> first_error hs m w')"

text \<open>The world after every handler of the list has been called, in order.\<close>

definition invoke_all :: "'w handler list \<Rightarrow> message \<Rightarrow> 'w \<Rightarrow> 'w" where
  "invoke_all hs m w = foldl (\<lambda>w h. snd (Handle h m w)) w hs"

section \<open>The container\<close>

subsection \<open>Types and values as reflection sees them\<close>

text \<open>\<open>reflect.Kind\<close>, as far as the container tells kinds apart.\<close>

datatype kind = Invalid | Func | Interface | Ptr | Struct | Other

text \<open>
  \<open>reflect.Type\<close>: a struct type, an interface type, any other type that is neither a
  pointer nor a function type (a string, a number and the like), a pointer type, a
  function type with its parameter and result types.
\<close>

datatype gotype =
    StructT string
  | InterfaceT string
  | OtherT string
  | PtrTo gotype
  | FuncOf "gotype list" "gotype list"

fun type_kind :: "gotype \<Rightarrow> kind" where
  "type_kind (StructT name) = Struct"
| "type_kind (InterfaceT name) = Interface"
| "type_kind (OtherT name) = Other"
| "type_kind (PtrTo t) = Ptr"
| "type_kind (FuncOf ins outs) = Func"

text \<open>The kind of \<open>typ.Elem()\<close>, for a pointer type.\<close>

fun elem_kind :: "gotype \<Rightarrow> kind" where
  "elem_kind (PtrTo t) = type_kind t"
| "elem_kind t = Invalid"

fun In :: "gotype \<Rightarrow> gotype list" where
  "In (FuncOf ins outs) = ins"
| "In t = []"

fun Out :: "gotype \<Rightarrow> gotype list" where
  "Out (FuncOf ins outs) = outs"
| "Out t = []"

definition NumIn :: "gotype \<Rightarrow> nat" where
  "NumIn t = length (In t)"

definition NumOut :: "gotype \<Rightarrow> nat" where
  "NumOut t = length (Out t)"

fun join :: "string list \<Rightarrow> string" where
  "join [] = []"
| "join [x] = x"
| "join (x # y # ys) = x @ '', '' @ join (y # ys)"

text \<open>\<open>Type.String()\<close>, the text from which the keys of the container are made.\<close>

fun type_string :: "gotype \<Rightarrow> string" where
  "type_string (StructT name) = name"
| "type_string (InterfaceT name) = name"
| "type_string (OtherT name) = name"
| "type_string (PtrTo t) = ''*'' @ type_string t"
| "type_string (FuncOf ins outs) =
     ''func('' @ join (map type_string ins) @ '')'' @
     (case outs of
        [] \<Rightarrow> []
      | [out] \<Rightarrow> '' '' @ type_string out
      | _ \<Rightarrow> '' ('' @ join (map type_string outs) @ '')'')"

text \<open>
  A value held in an \<open>interface{}\<close>: nil; a pointer, with the type it points to and the
  address of the struct in the heap (\<open>None\<close> for a nil pointer of that type); a
  function, with its parameter types, its result types and the name under which the
  environment knows what it does; any other value, with the name of its type and a
  payload, \<open>0\<close> standing for the zero value of the type.
\<close>

datatype val =
    Nil
  | Pointer gotype "nat option"
  | Function "gotype list" "gotype list" nat
  | Plain string nat

text \<open>\<open>reflect.TypeOf\<close>; \<open>None\<close> is the nil \<open>Type\<close> it returns for a nil interface.\<close>

fun TypeOf :: "val \<Rightarrow> gotype option" where
  "TypeOf Nil = None"
| "TypeOf (Pointer t a) = Some (PtrTo t)"
| "TypeOf (Function ins outs f) = Some (FuncOf ins outs)"
| "TypeOf (Plain name payload) = Some (OtherT name)"

text \<open>
  A field of a struct in memory: what \<open>reflect.StructField\<close> says of it (name, the
  value of the \<open>inject\<close> key of its tag, whether it is embedded, whether it is exported
  and so can be set, its type) and the value it holds.
\<close>

record field =
  Name :: string
  inject :: string
  Anonymous :: bool
  exported :: bool
  ftype :: gotype
  fvalue :: val

text \<open>The structs in memory; a pointer holds the index of its struct.\<close>

type_synonym heap = "field list list"

fun zero_value :: "val \<Rightarrow> bool" where
  "zero_value Nil = True"
| "zero_value (Pointer t a) = (a = None)"
| "zero_value (Function ins outs f) = False"
| "zero_value (Plain name payload) = (payload = 0)"

text \<open>
  \<open>field.IsZero()\<close>. A field of interface type is zero when it holds nil; a nil pointer
  inside an interface is not the zero value of the interface.
\<close>

definition IsZero :: "field \<Rightarrow> bool" where
  "IsZero f = (if type_kind (ftype f) = Interface then fvalue f = Nil else zero_value (fvalue f))"

text \<open>
  What the container cannot know by itself: what a constructor does when called (it may
  read and write the heap), which types implement which interface, and which values are
  errors (the type assertion \<open>.(error)\<close>).
\<close>

record env =
  call :: "nat \<Rightarrow> val list \<Rightarrow> heap \<Rightarrow> val list outcome \<times> heap"
  implements :: "gotype \<Rightarrow> gotype \<Rightarrow> bool"
  as_error :: "val \<Rightarrow> error option"

definition AssignableTo :: "env \<Rightarrow> gotype \<Rightarrow> gotype \<Rightarrow> bool" where
  "AssignableTo E s t = (s = t \<or> (type_kind t = Interface \<and> implements E s t))"

subsection \<open>The container and its keys\<close>

text \<open>
  A \<open>binding\<close>. A factory receives the container in the source; here it acts on the
  heap only, and returns an instance or an error.
\<close>

record binding =
  concrete :: val
  factory :: "(heap \<Rightarrow> val outcome \<times> heap) option"
  shared :: bool
  tags :: "string list"

text \<open>The two maps of the \<open>container\<close> struct, and the memory its instances live in.\<close>

record state =
  bindings :: "string \<rightharpoonup> binding"
  singletons :: "string \<rightharpoonup> val"
  heap :: heap

definition NewContainer :: "heap \<Rightarrow> state" where
  "NewContainer h = \<lparr> bindings = Map.empty, singletons = Map.empty, heap = h \<rparr>"

text \<open>
  The argument \<open>abstract interface{}\<close>: a \<open>reflect.Type\<close>, or any other value. A nil
  \<open>reflect.Type\<close> passed as \<open>interface{}\<close> is the nil value.
\<close>

datatype abstract = AType gotype | AValue val

fun as_abstract :: "gotype option \<Rightarrow> abstract" where
  "as_abstract None = AValue Nil"
| "as_abstract (Some t) = AType t"

text \<open>\<open>getKey\<close>; calling \<open>String\<close> on the nil \<open>Type\<close> of a nil value panics.\<close>

fun getKey :: "abstract \<Rightarrow> string outcome" where
  "getKey (AType t) = Inr (type_string t)"
| "getKey (AValue v) =
     (case TypeOf v of
        None \<Rightarrow> Inl (Panic ''invalid memory address or nil pointer dereference'')
      | Some t \<Rightarrow> Inr (type_string t))"

text \<open>
  What \<open>Bind\<close>, \<open>Singleton\<close>, \<open>Factory\<close> and \<open>BindTagged\<close> have in common: the
  key is computed and the binding stored under it, in place of any binding that was there.
\<close>

definition register :: "abstract \<Rightarrow> binding \<Rightarrow> state \<Rightarrow> unit outcome \<times> state" where
  "register abstract b c =
     (case getKey abstract of
        Inl f \<Rightarrow> (Inl f, c)
      | Inr key \<Rightarrow> (Inr (), c\<lparr> bindings := (bindings c)(key \<mapsto> b) \<rparr>))"

definition Bind :: "abstract \<Rightarrow> val \<Rightarrow> state \<Rightarrow> unit outcome \<times> state" where
  "Bind abstract conc c =
     register abstract \<lparr> concrete = conc, factory = None, shared = False, tags = [] \<rparr> c"

definition Singleton :: "abstract \<Rightarrow> val \<Rightarrow> state \<Rightarrow> unit outcome \<times> state" where
  "Singleton abstract conc c =
     register abstract \<lparr> concrete = conc, factory = None, shared = True, tags = [] \<rparr> c"

definition Factory ::
  "abstract \<Rightarrow> (heap \<Rightarrow> val outcome \<times> heap) \<Rightarrow> state \<Rightarrow> unit outcome \<times> state" where
  "Factory abstract f c =
     register abstract \<lparr> concrete = Nil, factory = Some f, shared = False, tags = [] \<rparr> c"

definition BindTagged :: "abstract \<Rightarrow> val \<Rightarrow> string list \<Rightarrow> state \<Rightarrow> unit outcome \<times> state" where
  "BindTagged abstract conc ts c =
     register abstract \<lparr> concrete = conc, factory = None, shared = False, tags = ts \<rparr> c"

definition Has :: "state \<Rightarrow> abstract \<Rightarrow> bool outcome" where
  "Has c abstract =
     (case getKey abstract of
        Inl f \<Rightarrow> Inl f
      | Inr key \<Rightarrow> Inr (bindings c key \<noteq> None))"

subsection \<open>AutoWire\<close>

text \<open>
  \<open>AutoWire\<close>, \<open>build\<close> and \<open>MakeWith\<close> call one another. Each function that calls
  \<open>c.Make\<close> takes it as the argument \<open>mk\<close>; \<open>MakeWith\<close> below closes the circle, with
  a bound on the depth of the calls.
\<close>

type_synonym maker = "state \<Rightarrow> abstract \<Rightarrow> val outcome \<times> state"

text \<open>
  The end of the loop body of \<open>AutoWire\<close>: \<open>field.Set\<close> when the field can be set and
  the type of the instance is assignable to it. \<open>reflect.ValueOf\<close> of a nil instance is
  the zero \<open>Value\<close>, whose \<open>Type\<close> panics.
\<close>

definition set_field :: "env \<Rightarrow> state \<Rightarrow> nat \<Rightarrow> nat \<Rightarrow> val \<Rightarrow> state outcome" where
  "set_field E c addr i instance =
     (if \<not> (addr < length (heap c) \<and> i < length (heap c ! addr))
      then Inl (Panic ''invalid memory address or nil pointer dereference'')
      else
        (let field = heap c ! addr ! i in
         if exported field then
           (case TypeOf instance of
              None \<Rightarrow> Inl (Panic ''reflect: call of reflect.Value.Type on zero Value'')
            | Some t \<Rightarrow>
                (if AssignableTo E t (ftype field)
                 then Inr (c\<lparr> heap := (heap c)[addr := (heap c ! addr)
                                       [i := field\<lparr> fvalue := instance \<rparr>]] \<rparr>)
                 else Inr c))
         else Inr c))"

text \<open>
  The loop of \<open>AutoWire\<close> over the fields \<open>i, ...\<close> of the struct at \<open>addr\<close>. For a
  field of interface type, \<open>reflect.New(field.Type()).Elem().Interface()\<close> is the nil
  interface and its \<open>reflect.TypeOf\<close> the nil \<open>Type\<close>; for a pointer field the type
  asked for is the type of the field.
\<close>

fun autowire_fields :: "maker \<Rightarrow> env \<Rightarrow> state \<Rightarrow> nat \<Rightarrow> nat list \<Rightarrow> unit outcome \<times> state" where
  "autowire_fields mk E c addr [] = (Inr (), c)"
| "autowire_fields mk E c addr (i # rest) =
     (if \<not> (addr < length (heap c) \<and> i < length (heap c ! addr))
      then (Inl (Panic ''invalid memory address or nil pointer dereference''), c)
      else
        (let field = heap c ! addr ! i; tag = inject field in
         if tag = [] \<and> \<not> Anonymous field then autowire_fields mk E c addr rest
         else if \<not> IsZero field then autowire_fields mk E c addr rest
         else if type_kind (ftype field) \<noteq> Interface \<and> type_kind (ftype field) \<noteq> Ptr
           then autowire_fields mk E c addr rest
         else
           (let abstractType = (if type_kind (ftype field) = Interface then None
                                else Some (ftype field)) in
            case mk c (as_abstract abstractType) of
              (Inl (Err e), c1) \<Rightarrow>
                (if tag = ''optional'' then autowire_fields mk E c1 addr rest
                 else (Inl (Err (FieldFailed (Name field) e)), c1))
            | (Inl f, c1) \<Rightarrow> (Inl f, c1)
            | (Inr instance, c1) \<Rightarrow>
                (case set_field E c1 addr i instance of
                   Inl f \<Rightarrow> (Inl f, c1)
                 | Inr c2 \<Rightarrow> autowire_fields mk E c2 addr rest))))"

definition AutoWire :: "maker \<Rightarrow> env \<Rightarrow> state \<Rightarrow> val \<Rightarrow> unit outcome \<times> state" where
  "AutoWire mk E c target =
     (case target of
        Pointer t a \<Rightarrow>
          (case (t, a) of
             (StructT name, Some addr) \<Rightarrow>
               (if addr < length (heap c)
                then autowire_fields mk E c addr [0 ..< length (heap c ! addr)]
                else (Inl (Panic ''invalid memory address or nil pointer dereference''), c))
           | _ \<Rightarrow> (Inl (Err NotAStructPointer), c))
      | _ \<Rightarrow> (Inl (Err NotAPointer), c))"

subsection \<open>build\<close>

text \<open>
  The loop over \<open>params\<close> in \<open>build\<close>: an entry whose key is the name of the type of
  parameter \<open>i\<close> is stored in \<open>args[i]\<close>, and the loop goes on to the next entry.
\<close>

fun apply_params :: "(string \<times> val) list \<Rightarrow> gotype \<Rightarrow> nat \<Rightarrow> val list \<Rightarrow> val list" where
  "apply_params [] argType i args = args"
| "apply_params ((key, value) # rest) argType i args =
     apply_params rest argType i (if key = type_string argType then args[i := value] else args)"

text \<open>
  The loop over the parameters of the constructor, from parameter \<open>i\<close> on: after the
  loop over \<open>params\<close>, the parameter is resolved from the container and stored in
  \<open>args[i]\<close>.
\<close>

fun build_args ::
  "maker \<Rightarrow> state \<Rightarrow> (string \<times> val) list \<Rightarrow> gotype list \<Rightarrow> nat \<Rightarrow> val list
     \<Rightarrow> val list outcome \<times> state" where
  "build_args mk c params [] i args = (Inr args, c)"
| "build_args mk c params (argType # rest) i args =
     (let args1 = apply_params params argType i args in
      case mk c (AType argType) of
        (Inl (Err e), c1) \<Rightarrow> (Inl (Err (ArgFailed i e)), c1)
      | (Inl f, c1) \<Rightarrow> (Inl f, c1)
      | (Inr instance, c1) \<Rightarrow> build_args mk c1 params rest (Suc i) (args1[i := instance]))"

text \<open>
  \<open>val.Call(args)\<close>: reflection panics on a zero \<open>Value\<close> argument and on an argument
  whose type is not assignable to the parameter; otherwise the function runs.
\<close>

fun check_args :: "env \<Rightarrow> val list \<Rightarrow> gotype list \<Rightarrow> string option" where
  "check_args E [] [] = None"
| "check_args E (a # as) (t # ts) =
     (case TypeOf a of
        None \<Rightarrow> Some ''reflect: Call using zero Value argument''
      | Some s \<Rightarrow> (if AssignableTo E s t then check_args E as ts
                   else Some ''reflect: Call using value of the wrong type''))"
| "check_args E as ts = Some ''reflect: Call with the wrong number of input arguments''"

definition Call :: "env \<Rightarrow> val \<Rightarrow> val list \<Rightarrow> heap \<Rightarrow> val list outcome \<times> heap" where
  "Call E fn args h =
     (case fn of
        Function ins outs f \<Rightarrow>
          (case check_args E args ins of
             Some p \<Rightarrow> (Inl (Panic p), h)
           | None \<Rightarrow> call E f args h)
      | _ \<Rightarrow> (Inl (Panic ''reflect: call of reflect.Value.Call on non-func Value''), h))"

text \<open>
  The kind of \<open>results[i]\<close>: a \<open>Value\<close> returned by \<open>Call\<close> has the type that the
  function declares for the result.
\<close>

definition result_kind :: "gotype \<Rightarrow> nat \<Rightarrow> kind" where
  "result_kind typ i = (if i < length (Out typ) then type_kind (Out typ ! i) else Invalid)"

text \<open>
  \<open>results[1].IsNil()\<close>. A result declared with an interface type is nil when the
  interface is; one declared with a pointer or function type when the pointer or function
  is. On a result of a kind that has no nil, \<open>IsNil\<close> panics: a struct, a string, a
  number and the like. (A second result declared as a map, a slice or a channel, which
  have a nil, is not among the types described here.)
\<close>

definition result_IsNil :: "kind \<Rightarrow> val \<Rightarrow> bool outcome" where
  "result_IsNil k v =
     (if k = Interface then Inr (v = Nil)
      else if k = Ptr \<or> k = Func then Inr (zero_value v)
      else Inl (Panic ''reflect: call of reflect.Value.IsNil on a Value that has no nil''))"

text \<open>
  The check of the second result in \<open>build\<close>: \<open>None\<close> when there is no second result
  or it is nil, else why \<open>build\<close> ends here: with the error that the result is, or with
  a panic, of \<open>IsNil\<close> or of the assertion \<open>.(error)\<close> on a value that is no error.
\<close>

definition error_result :: "env \<Rightarrow> gotype \<Rightarrow> val list \<Rightarrow> failure option" where
  "error_result E typ results =
     (if length results = 2 then
        (case result_IsNil (result_kind typ 1) (results ! 1) of
           Inl f \<Rightarrow> Some f
         | Inr isNil \<Rightarrow>
             (if \<not> isNil then
                (case as_error E (results ! 1) of
                   Some err \<Rightarrow> Some (Err err)
                 | None \<Rightarrow> Some (Panic ''interface conversion: not an error''))
              else None))
      else None)"

text \<open>The part of \<open>build\<close> after the call of the constructor.\<close>

definition built :: "maker \<Rightarrow> env \<Rightarrow> state \<Rightarrow> gotype \<Rightarrow> val list \<Rightarrow> val outcome \<times> state" where
  "built mk E c typ results =
     (case error_result E typ results of
        Some f \<Rightarrow> (Inl f, c)
      | None \<Rightarrow>
          (case results of
             [] \<Rightarrow> (Inl (Panic ''index out of range''), c)
           | instance # _ \<Rightarrow>
               (case TypeOf instance of
                  None \<Rightarrow> (Inl (Panic ''invalid memory address or nil pointer dereference''), c)
                | Some t \<Rightarrow>
                    (if type_kind t = Ptr then
                       (case AutoWire mk E c instance of
                          (Inl f, c1) \<Rightarrow> (Inl f, c1)
                        | (Inr u, c1) \<Rightarrow> (Inr instance, c1))
                     else (Inr instance, c)))))"

definition build ::
  "maker \<Rightarrow> env \<Rightarrow> state \<Rightarrow> val \<Rightarrow> (string \<times> val) list \<Rightarrow> val outcome \<times> state" where
  "build mk E c conc params =
     (case TypeOf conc of
        None \<Rightarrow> (Inl (Panic ''invalid memory address or nil pointer dereference''), c)
      | Some typ \<Rightarrow>
          (if type_kind typ \<noteq> Func then
             (if type_kind typ = Ptr \<and> elem_kind typ = Struct then
                (case AutoWire mk E c conc of
                   (Inl f, c1) \<Rightarrow> (Inl f, c1)
                 | (Inr u, c1) \<Rightarrow> (Inr conc, c1))
              else (Inr conc, c))
           else if NumOut typ \<noteq> 1 \<and> NumOut typ \<noteq> 2 then (Inl (Err BadConstructor), c)
           else
             (case build_args mk c params (In typ) 0 (replicate (NumIn typ) Nil) of
                (Inl f, c1) \<Rightarrow> (Inl f, c1)
              | (Inr args, c1) \<Rightarrow>
                  (case Call E conc args (heap c1) of
                     (Inl f, h) \<Rightarrow> (Inl f, c1\<lparr> heap := h \<rparr>)
                   | (Inr results, h) \<Rightarrow> built mk E (c1\<lparr> heap := h \<rparr>) typ results))))"

subsection \<open>Make\<close>

text \<open>The instance of a binding: from its factory when it has one, else from \<open>build\<close>.\<close>

definition instantiate ::
  "maker \<Rightarrow> env \<Rightarrow> state \<Rightarrow> binding \<Rightarrow> (string \<times> val) list \<Rightarrow> val outcome \<times> state" where
  "instantiate mk E c b params =
     (case factory b of
        Some f \<Rightarrow> (case f (heap c) of (r, h) \<Rightarrow> (r, c\<lparr> heap := h \<rparr>))
      | None \<Rightarrow> build mk E c (concrete b) params)"

text \<open>
  \<open>MakeWith\<close>. The first argument bounds the depth of the calls of \<open>Make\<close> inside one
  another. \<open>locked\<close> says that the caller holds the read lock of the container, as
  \<open>Tagged\<close> does while it builds: storing a singleton then waits for the write lock for
  ever.
\<close>

primrec MakeWith ::
  "nat \<Rightarrow> env \<Rightarrow> bool \<Rightarrow> state \<Rightarrow> abstract \<Rightarrow> (string \<times> val) list \<Rightarrow> val outcome \<times> state" where
  "MakeWith 0 E locked c abstract params = (Inl OutOfFuel, c)"
| "MakeWith (Suc n) E locked c abstract params =
     (case getKey abstract of
        Inl f \<Rightarrow> (Inl f, c)
      | Inr key \<Rightarrow>
          (case bindings c key of
             None \<Rightarrow> (Inl (Err (NoBinding key)), c)
           | Some b \<Rightarrow>
               (case (if shared b then singletons c key else None) of
                  Some instance \<Rightarrow> (Inr instance, c)
                | None \<Rightarrow>
                    (case instantiate (\<lambda>c' a. MakeWith n E locked c' a []) E c b params of
                       (Inl f, c1) \<Rightarrow> (Inl f, c1)
                     | (Inr instance, c1) \<Rightarrow>
                         (if shared b then
                            (if locked then (Inl Blocked, c1)
                             else (Inr instance,
                                   c1\<lparr> singletons := (singletons c1)(key \<mapsto> instance) \<rparr>))
                          else (Inr instance, c1))))))"

definition Make :: "nat \<Rightarrow> env \<Rightarrow> bool \<Rightarrow> maker" where
  "Make n E locked c abstract = MakeWith n E locked c abstract []"

subsection \<open>Tagged\<close>

text \<open>The inner loop of \<open>Tagged\<close>, over the tags of one binding.\<close>

fun tagged_tags ::
  "maker \<Rightarrow> env \<Rightarrow> state \<Rightarrow> string \<Rightarrow> binding \<Rightarrow> string \<Rightarrow> string list \<Rightarrow> val list
     \<Rightarrow> val list outcome \<times> state" where
  "tagged_tags mk E c key b tag [] instances = (Inr instances, c)"
| "tagged_tags mk E c key b tag (t # rest) instances =
     (if t = tag then
        (case (if shared b then singletons c key else None) of
           Some instance \<Rightarrow> tagged_tags mk E c key b tag rest (instances @ [instance])
         | None \<Rightarrow>
             (case instantiate mk E c b [] of
                (Inl f, c1) \<Rightarrow> (Inl f, c1)
              | (Inr instance, c1) \<Rightarrow>
                  tagged_tags mk E c1 key b tag rest (instances @ [instance])))
      else tagged_tags mk E c key b tag rest instances)"

text \<open>
  The outer loop, over the keys of the map of bindings in the order \<open>order\<close> in which the
  map happens to be walked.
\<close>

fun tagged_keys ::
  "maker \<Rightarrow> env \<Rightarrow> state \<Rightarrow> string \<Rightarrow> string list \<Rightarrow> val list \<Rightarrow> val list outcome \<times> state" where
  "tagged_keys mk E c tag [] instances = (Inr instances, c)"
| "tagged_keys mk E c tag (key # order) instances =
     (case bindings c key of
        None \<Rightarrow> tagged_keys mk E c tag order instances
      | Some b \<Rightarrow>
          (case tagged_tags mk E c key b tag (tags b) instances of
             (Inl f, c1) \<Rightarrow> (Inl f, c1)
           | (Inr instances1, c1) \<Rightarrow> tagged_keys mk E c1 tag order instances1))"

definition Tagged ::
  "nat \<Rightarrow> env \<Rightarrow> state \<Rightarrow> string list \<Rightarrow> string \<Rightarrow> val list outcome \<times> state" where
  "Tagged n E c order tag = tagged_keys (Make n E True) E c tag order []"

subsection \<open>Notions used to state the properties of the container\<close>

text \<open>
  Every field that is not zero in the first heap is the same field in the second: the
  struct is still there, so is the field, and it holds the same value.
\<close>

definition untouched :: "heap \<Rightarrow> heap \<Rightarrow> bool" where
  "untouched h h' =
     (\<forall>addr i. addr < length h \<and> i < length (h ! addr) \<and> \<not> IsZero (h ! addr ! i) \<longrightarrow>
        addr < length h' \<and> i < length (h' ! addr) \<and> h' ! addr ! i = h ! addr ! i)"

text \<open>
  The code that the container calls but does not contain, constructors and factories,
  does not write to a field that holds a value.
\<close>

definition user_code_ok :: "env \<Rightarrow> (string \<rightharpoonup> binding) \<Rightarrow> bool" where
  "user_code_ok E bs =
     ((\<forall>f args h. untouched h (snd (call E f args h))) \<and>
      (\<forall>key b f h. bs key = Some b \<and> factory b = Some f \<longrightarrow> untouched h (snd (f h))))"

text \<open>Two properties that a \<open>Make\<close> passed to \<open>AutoWire\<close> and \<open>build\<close> may have.\<close>

definition keeps_bindings :: "maker \<Rightarrow> bool" where
  "keeps_bindings mk = (\<forall>c a r c'. mk c a = (r, c') \<longrightarrow> bindings c' = bindings c)"

definition frames :: "env \<Rightarrow> maker \<Rightarrow> bool" where
  "frames E mk =
     (\<forall>c a r c'. user_code_ok E (bindings c) \<and> mk c a = (r, c') \<longrightarrow>
        untouched (heap c) (heap c'))"

text \<open>
  \<open>Tagged\<close> in other words: the pairs of a key and its binding, one for each time the
  tag stands in the tag list of the binding, in the order of the walk; what \<open>Tagged\<close>
  does for one pair; and doing it for each pair of a list until one fails.
\<close>

definition tag_occurrences ::
  "(string \<rightharpoonup> binding) \<Rightarrow> string list \<Rightarrow> string \<Rightarrow> (string \<times> binding) list" where
  "tag_occurrences bs order tag =
     concat (map (\<lambda>key. case bs key of
                           None \<Rightarrow> []
                         | Some b \<Rightarrow> map (\<lambda>t. (key, b)) (filter (\<lambda>t. t = tag) (tags b)))
                 order)"

definition resolve_tagged ::
  "maker \<Rightarrow> env \<Rightarrow> state \<Rightarrow> string \<Rightarrow> binding \<Rightarrow> val outcome \<times> state" where
  "resolve_tagged mk E c key b =
     (case (if shared b then singletons c key else None) of
        Some instance \<Rightarrow> (Inr instance, c)
      | None \<Rightarrow> instantiate mk E c b [])"

fun build_each ::
  "maker \<Rightarrow> env \<Rightarrow> state \<Rightarrow> (string \<times> binding) list \<Rightarrow> val list \<Rightarrow> val list outcome \<times> state" where
  "build_each mk E c [] instances = (Inr instances, c)"
| "build_each mk E c ((key, b) # rest) instances =
     (case resolve_tagged mk E c key b of
        (Inl f, c1) \<Rightarrow> (Inl f, c1)
      | (Inr instance, c1) \<Rightarrow> build_each mk E c1 rest (instances @ [instance]))"

text \<open>
  A field that \<open>AutoWire\<close> passes over: not marked for injection, or holding a value, or
  of a kind that cannot be injected.
\<close>

definition passed_over :: "field \<Rightarrow> bool" where
  "passed_over f =
     ((inject f = [] \<and> \<not> Anonymous f) \<or> \<not> IsZero f \<or>
      (type_kind (ftype f) \<noteq> Interface \<and> type_kind (ftype f) \<noteq> Ptr))"

text \<open>
  A binding that holds a finished instance: not shared, without factory, and its concrete
  is neither nil nor a constructor; when it is a pointer to a struct, the struct is in
  memory and \<open>AutoWire\<close> passes over each of its fields. Resolving such a binding calls
  neither user code nor \<open>Make\<close>.
\<close>

definition prebuilt :: "heap \<Rightarrow> binding \<Rightarrow> bool" where
  "prebuilt h b =
     (factory b = None \<and> \<not> shared b \<and>
      (case concrete b of
         Nil \<Rightarrow> False
       | Function ins outs f \<Rightarrow> False
       | Plain name payload \<Rightarrow> True
       | Pointer t a \<Rightarrow>
           (case t of
              StructT name \<Rightarrow>
                (case a of
                   None \<Rightarrow> False
                 | Some addr \<Rightarrow> addr < length h \<and> list_all passed_over (h ! addr))
            | _ \<Rightarrow> True)))"

subsection \<open>Examples\<close>

text \<open>An environment without constructors, interfaces or error values.\<close>

definition no_user_code :: env where
  "no_user_code =
     \<lparr> call = (\<lambda>f args h. (Inl (Panic ''no such function''), h)),
       implements = (\<lambda>s t. False),
       as_error = (\<lambda>v. None) \<rparr>"

text \<open>
  The types of the tests of the container: the interface \<open>TestService\<close>, its
  implementation \<open>testServiceImpl\<close> with the one field \<open>name\<close>, and the key under which
  the tests register, from \<open>(*TestService)(nil)\<close>.
\<close>

definition TestService :: abstract where
  "TestService = AValue (Pointer (InterfaceT ''di.TestService'') None)"

definition TestService_type :: abstract where
  "TestService_type = AType (PtrTo (InterfaceT ''di.TestService''))"

definition testServiceImpl :: "nat \<Rightarrow> field list" where
  "testServiceImpl n =
     [\<lparr> Name = ''name'', inject = [], Anonymous = False, exported = False,
        ftype = OtherT ''string'', fvalue = Plain ''string'' n \<rparr>]"

definition service :: "nat \<Rightarrow> val" where
  "service addr = Pointer (StructT ''di.testServiceImpl'') (Some addr)"

text \<open>
  A constructor \<open>func(name string) *testServiceImpl\<close>, and a parameter map that gives a
  value for its parameter under the name of the type, \<open>string\<close>.
\<close>

definition newService :: val where
  "newService = Function [OtherT ''string''] [PtrTo (StructT ''di.testServiceImpl'')] 0"

definition name_override :: "(string \<times> val) list" where
  "name_override = [(''string'', Plain ''string'' 7)]"

text \<open>
  A struct with one exported field \<open>Service TestService `inject:"optional"`\<close>, not set,
  and a pointer to it when it is the first struct in memory.
\<close>

definition TestStructOptional :: "field list" where
  "TestStructOptional =
     [\<lparr> Name = ''Service'', inject = ''optional'', Anonymous = False, exported = True,
        ftype = InterfaceT ''di.TestService'', fvalue = Nil \<rparr>]"

definition optional_target :: val where
  "optional_target = Pointer (StructT ''di.TestStructOptional'') (Some 0)"

text \<open>
  A struct with two exported fields of type \<open>*testServiceImpl\<close>, both tagged
  \<open>inject:"required"\<close>: \<open>Service\<close> is set by the caller to the service at address 0,
  \<open>Other\<close> is nil. The memory holds the caller's service, the service that the container
  has a binding for, and the struct.
\<close>

definition TestStructPreset :: "field list" where
  "TestStructPreset =
     [\<lparr> Name = ''Service'', inject = ''required'', Anonymous = False, exported = True,
        ftype = PtrTo (StructT ''di.testServiceImpl''), fvalue = service 0 \<rparr>,
      \<lparr> Name = ''Other'', inject = ''required'', Anonymous = False, exported = True,
        ftype = PtrTo (StructT ''di.testServiceImpl''),
        fvalue = Pointer (StructT ''di.testServiceImpl'') None \<rparr>]"

definition preset_memory :: heap where
  "preset_memory = [testServiceImpl 1, testServiceImpl 2, TestStructPreset]"

definition preset_target :: val where
  "preset_target = Pointer (StructT ''di.TestStructPreset'') (Some 2)"

definition preset_container :: state where
  "preset_container =
     snd (Bind (AValue (Pointer (StructT ''di.testServiceImpl'') None)) (service 1)
            (NewContainer preset_memory))"

text \<open>
  A dependency registered as a singleton under the key \<open>*di.testServiceImpl\<close>, and a
  constructor \<open>func(dep *testServiceImpl) *testServiceImpl\<close> registered with a tag.
\<close>

definition newDependent :: val where
  "newDependent =
     Function [PtrTo (StructT ''di.testServiceImpl'')] [PtrTo (StructT ''di.testServiceImpl'')] 0"

definition dependent_container :: state where
  "dependent_container =
     snd (BindTagged TestService newDependent [''mytag'']
            (snd (Singleton (AValue (Pointer (StructT ''di.testServiceImpl'') None)) (service 0)
                    (NewContainer [testServiceImpl 1]))))"

section \<open>Properties of the message bus\<close>

lemma subscribed_Subscribe:
  "subscribed (Subscribe p h b) q = (if q = p then subscribed b q @ [h] else subscribed b q)"
  by (simp add: subscribed_def Subscribe_def Let_def)

lemma subscribed_subscribe_all:
  "subscribed (subscribe_all subs b) q = subscribed b q @ under subs q"
  by (induction subs arbitrary: b) (auto simp: under_def subscribed_Subscribe)

lemma getHandlers_subscribed:
  "getHandlers b m = subscribed b (MessageSlug m) @ subscribed b (MessageType m) @ subscribed b ''*''"
  by (simp add: getHandlers_def subscribed_def Let_def split: option.splits)

lemma subscribed_NewBus: "subscribed NewBus q = []"
  by (simp add: subscribed_def NewBus_def)

lemma run_handlers_world:
  "snd (run_handlers hs m errs w) = invoke_all hs m w"
  by (induction hs arbitrary: errs w) (auto simp: invoke_all_def split: prod.splits option.splits)

lemma run_handlers_prefix:
  "\<exists>rest. fst (run_handlers hs m errs w) = errs @ rest \<and>
          fst (run_handlers hs m [] w) = rest"
proof (induction hs arbitrary: errs w)
  case Nil
  show ?case by simp
next
  case (Cons h hs)
  obtain r w' where hw: "Handle h m w = (r, w')" by (cases "Handle h m w")
  show ?case
  proof (cases r)
    case None
    with hw Cons.IH[of errs w'] show ?thesis by simp
  next
    case (Some e)
    from Cons.IH[of "errs @ [e]" w'] obtain rest where
      r1: "fst (run_handlers hs m (errs @ [e]) w') = (errs @ [e]) @ rest"
      and r2: "fst (run_handlers hs m [] w') = rest" by blast
    from Cons.IH[of "[e]" w'] r2 have
      r3: "fst (run_handlers hs m [e] w') = [e] @ rest" by auto
    from hw Some r1 r3 show ?thesis by simp
  qed
qed

lemma run_handlers_errs:
  "done_signal (fst (run_handlers hs m [] w)) = first_error hs m w"
proof (induction hs arbitrary: w)
  case Nil
  show ?case by (simp add: done_signal_def)
next
  case (Cons h hs)
  obtain r w' where hw: "Handle h m w = (r, w')" by (cases "Handle h m w")
  show ?case
  proof (cases r)
    case None
    with hw Cons.IH[of w'] show ?thesis by simp
  next
    case (Some e)
    from run_handlers_prefix[of hs m "[e]" w'] obtain rest where
      "fst (run_handlers hs m [e] w') = [e] @ rest" by blast
    with hw Some show ?thesis by (simp add: done_signal_def)
  qed
qed

lemma process_envelope_sync:
  "process_envelope b \<lparr> msg = m, sync = True \<rparr> w =
     (Some (first_error (getHandlers b m) m w), b, invoke_all (getHandlers b m) m w)"
  using run_handlers_errs[of "getHandlers b m" m w] run_handlers_world[of "getHandlers b m" m "[]" w]
  by (auto simp: process_envelope_def Let_def split: prod.splits)

lemma process_queue_append:
  "process_queue (q @ [env]) b w =
     (case process_queue q b w of
        (ds, b1, w1) \<Rightarrow>
          (case process_envelope b1 env w1 of
             (d, b2, w2) \<Rightarrow> (ds @ (case d of Some s \<Rightarrow> [s] | None \<Rightarrow> []), b2, w2)))"
  by (induction q arbitrary: b w) (auto split: prod.splits option.splits)


lemma process_envelope_frame:
  "process_envelope b env w = (d, b', w') \<Longrightarrow>
     subscribers b' = subscribers b \<and> started b' = started b \<and> closed b' = closed b
     \<and> cancelled b' = cancelled b \<and> messages b' = messages b"
  by (auto simp: process_envelope_def Let_def split: if_splits prod.splits)

lemma process_queue_frame:
  "process_queue q b w = (ds, b', w') \<Longrightarrow>
     subscribers b' = subscribers b \<and> started b' = started b \<and> closed b' = closed b
     \<and> cancelled b' = cancelled b \<and> messages b' = messages b"
proof (induction q arbitrary: b w ds b' w')
  case Nil
  then show ?case by simp
next
  case (Cons env q)
  obtain d b1 w1 where st: "process_envelope b env w = (d, b1, w1)"
    by (cases "process_envelope b env w")
  obtain ds2 b2 w2 where rest: "process_queue q b1 w1 = (ds2, b2, w2)"
    by (cases "process_queue q b1 w1")
  from Cons.prems st rest have "b' = b2" by simp
  with Cons.IH[OF rest] process_envelope_frame[OF st] show ?case by simp
qed

lemma process_frame:
  "process b w = (ds, b', w') \<Longrightarrow>
     subscribers b' = subscribers b \<and> started b' = started b \<and> closed b' = closed b
     \<and> cancelled b' = cancelled b \<and> messages b' = []"
  using process_queue_frame[of "messages b" "b\<lparr>messages := []\<rparr>" w ds b' w']
  by (simp add: process_def)

lemma getHandlers_cong:
  "subscribers b' = subscribers b \<Longrightarrow> getHandlers b' m = getHandlers b m"
  by (simp add: getHandlers_def)

text \<open>
  Claim C5. The handlers matched for a message are the list subscribed under its slug, then
  the list subscribed under its type, then the list subscribed under \<open>*\<close>, nothing
  removed; \<open>Subscribe\<close> appends to the list of its pattern and leaves the others alone;
  so after any sequence of \<open>Subscribe\<close> calls on a new bus each group is in the order
  of subscription, and a handler subscribed under the slug and under \<open>*\<close> is matched
  twice.
\<close>

theorem getHandlers_is_concatenation:
  "getHandlers b m =
     subscribed b (MessageSlug m) @ subscribed b (MessageType m) @ subscribed b ''*''
   \<and> subscribed (Subscribe p h b) q = (if q = p then subscribed b q @ [h] else subscribed b q)
   \<and> getHandlers (subscribe_all subs NewBus) m =
       under subs (MessageSlug m) @ under subs (MessageType m) @ under subs ''*''"
  by (simp add: getHandlers_subscribed subscribed_Subscribe subscribed_subscribe_all
        subscribed_NewBus)

text \<open>
  Handler 1 is subscribed under the slug and under \<open>*\<close>: it is matched twice, first
  and last.
\<close>

theorem getHandlers_is_concatenation_witness:
  "getHandlers
     (subscribe_all [(''user.created'', \<lparr>hid = 1, Handle = \<lambda>m w. (None, w)\<rparr>),
                     (''event'', \<lparr>hid = 2, Handle = \<lambda>m w. (None, w)\<rparr>),
                     (''*'', \<lparr>hid = 1, Handle = \<lambda>m w. (None, w)\<rparr>),
                     (''user.created'', \<lparr>hid = 3, Handle = \<lambda>m w. (None, w)\<rparr>)]
        (NewBus :: unit bus))
     \<lparr>MessageSlug = ''user.created'', MessageType = ''event''\<rparr>
   = [\<lparr>hid = 1, Handle = \<lambda>m w. (None, w)\<rparr>, \<lparr>hid = 3, Handle = \<lambda>m w. (None, w)\<rparr>,
      \<lparr>hid = 2, Handle = \<lambda>m w. (None, w)\<rparr>, \<lparr>hid = 1, Handle = \<lambda>m w. (None, w)\<rparr>]"
  using getHandlers_is_concatenation
    [of "NewBus :: unit bus" "\<lparr>MessageSlug = ''user.created'', MessageType = ''event''\<rparr>"
        "''x''" "\<lparr>hid = 1, Handle = \<lambda>m w. (None, w)\<rparr>" "''x''"
        "[(''user.created'', \<lparr>hid = 1, Handle = \<lambda>m w. (None, w)\<rparr>),
          (''event'', \<lparr>hid = 2, Handle = \<lambda>m w. (None, w)\<rparr>),
          (''*'', \<lparr>hid = 1, Handle = \<lambda>m w. (None, w)\<rparr>),
          (''user.created'', \<lparr>hid = 3, Handle = \<lambda>m w. (None, w)\<rparr>)]",
     THEN conjunct2, THEN conjunct2]
  by (simp add: under_def)

text \<open>
  Claim C6. The dispatch of a synchronous envelope calls every matched handler, in matching
  order, whatever the earlier ones returned, and signals the first error returned (nil when
  there is none); \<open>PublishSync\<close> on a running bus, with a context that is not
  cancelled, returns that signal. Envelopes still in the channel are dispatched first:
  \<open>b1\<close> and \<open>w1\<close> are the bus and the world after them.
\<close>

theorem sync_dispatch_first_error:
  "process_envelope b \<lparr>msg = m, sync = True\<rparr> w =
     (Some (first_error (getHandlers b m) m w), b, invoke_all (getHandlers b m) m w)
   \<and> (started b \<and> \<not> closed b \<and> length (messages b) < capacity \<and> process b w = (ds, b1, w1) \<longrightarrow>
        PublishSync b Background pick m w =
          ((case first_error (getHandlers b m) m w1 of None \<Rightarrow> Inr () | Some e \<Rightarrow> Inl (Err e)),
           b1, invoke_all (getHandlers b m) m w1))"
proof (intro conjI impI)
  show "process_envelope b \<lparr>msg = m, sync = True\<rparr> w =
     (Some (first_error (getHandlers b m) m w), b, invoke_all (getHandlers b m) m w)"
    by (rule process_envelope_sync)
next
  assume a: "started b \<and> \<not> closed b \<and> length (messages b) < capacity \<and> process b w = (ds, b1, w1)"
  then have pq: "process_queue (messages b) (b\<lparr>messages := []\<rparr>) w = (ds, b1, w1)"
    by (simp add: process_def)
  from a process_frame[of b w ds b1 w1] have "subscribers b1 = subscribers b"
    by simp
  then have same: "getHandlers b1 m = getHandlers b m"
    by (rule getHandlers_cong)
  have sel: "select_send b Background pick = Send"
    using a by (simp add: select_send_def)
  have "process (b\<lparr>messages := messages b @ [\<lparr>msg = m, sync = True\<rparr>]\<rparr>) w =
          (ds @ [first_error (getHandlers b m) m w1], b1, invoke_all (getHandlers b m) m w1)"
    using pq same by (simp add: process_def process_queue_append process_envelope_sync)
  then show "PublishSync b Background pick m w =
          ((case first_error (getHandlers b m) m w1 of None \<Rightarrow> Inr () | Some e \<Rightarrow> Inl (Err e)),
           b1, invoke_all (getHandlers b m) m w1)"
    using a sel by (simp add: PublishSync_def receive_done_def Let_def split: option.splits)
qed

text \<open>
  Claim C10. \<open>Stop\<close> on a running bus whose channel is open does not panic, and leaves
  the bus with \<open>started\<close> still set and the channel closed; any further \<open>Stop\<close>
  on that bus panics in \<open>close\<close>.
\<close>

theorem Stop_twice_panics:
  assumes "started b" and "\<not> closed b" and "Stop b c w = (r, b', w')"
  shows "(\<forall>s. r \<noteq> Inl (Panic s)) \<and> started b' \<and> closed b'
         \<and> fst (Stop b' c' w'') = Inl (Panic ''close of closed channel'')"
proof -
  obtain ds b3 w3 where p: "process (b\<lparr>cancelled := True, closed := True\<rparr>) w = (ds, b3, w3)"
    by (cases "process (b\<lparr>cancelled := True, closed := True\<rparr>) w")
  from process_frame[OF p] have f: "started b3 = started b" "closed b3" by simp_all
  from assms p f have "(\<forall>s. r \<noteq> Inl (Panic s)) \<and> started b' \<and> closed b'"
    by (auto simp: Stop_def Let_def split: ctx.splits race.splits)
  moreover have "started b' \<Longrightarrow> closed b' \<Longrightarrow>
      fst (Stop b' c' w'') = Inl (Panic ''close of closed channel'')"
    unfolding Stop_def by simp
  ultimately show ?thesis by blast
qed

text \<open>Before \<open>Start\<close>, \<open>Publish\<close> returns the error and leaves the bus as it is.\<close>

lemma Publish_not_started:
  "\<not> started b \<Longrightarrow> Publish b c pick m = (Inl (Err BusNotStarted), b)"
  by (simp add: Publish_def)

text \<open>
  Claim C2, on the code: a new bus is started and stopped, both without error; the
  \<open>Publish\<close> that follows does not return \<open>BusNotStarted\<close>, it panics on the
  closed channel, \<open>started\<close> never being reset.
\<close>

theorem Publish_after_Stop_panics:
  "(case Start (NewBus :: unit bus) of
      (r1, b1) \<Rightarrow>
        (case Stop b1 Background () of
           (r2, b2, w2) \<Rightarrow>
             r1 = Inr () \<and> r2 = Inr () \<and>
             Publish b2 Background pick \<lparr>MessageSlug = ''user.created'', MessageType = ''event''\<rparr>
               = (Inl (Panic ''send on closed channel''), b2)))"
  by (simp add: Start_def NewBus_def Stop_def process_def Publish_def select_send_def Let_def)


text \<open>
  Three handlers matched in the order 1, 2, 3; handlers 2 and 3 fail. All three run, and the
  caller gets the error of handler 2.
\<close>

theorem sync_dispatch_first_error_witness:
  "PublishSync
     (snd (Start (subscribe_all
        [(''*'', \<lparr>hid = 3, Handle = \<lambda>m w. (Some (HandlerError ''late''), w @ [3])\<rparr>),
         (''user.created'', \<lparr>hid = 1, Handle = \<lambda>m w. (None, w @ [1])\<rparr>),
         (''user.created'', \<lparr>hid = 2, Handle = \<lambda>m w. (Some (HandlerError ''boom''), w @ [2])\<rparr>)]
        NewBus)))
     Background True \<lparr>MessageSlug = ''user.created'', MessageType = ''event''\<rparr> ([] :: nat list)
   = (Inl (Err (HandlerError ''boom'')),
      snd (Start (subscribe_all
        [(''*'', \<lparr>hid = 3, Handle = \<lambda>m w. (Some (HandlerError ''late''), w @ [3])\<rparr>),
         (''user.created'', \<lparr>hid = 1, Handle = \<lambda>m w. (None, w @ [1])\<rparr>),
         (''user.created'', \<lparr>hid = 2, Handle = \<lambda>m w. (Some (HandlerError ''boom''), w @ [2])\<rparr>)]
        NewBus)),
      [1, 2, 3])"
proof -
  let ?b = "snd (Start (subscribe_all
        [(''*'', \<lparr>hid = 3, Handle = \<lambda>m w. (Some (HandlerError ''late''), w @ [3::nat])\<rparr>),
         (''user.created'', \<lparr>hid = 1, Handle = \<lambda>m w. (None, w @ [1])\<rparr>),
         (''user.created'', \<lparr>hid = 2, Handle = \<lambda>m w. (Some (HandlerError ''boom''), w @ [2])\<rparr>)]
        NewBus))"
  let ?m = "\<lparr>MessageSlug = ''user.created'', MessageType = ''event''\<rparr>"
  have pre: "started ?b \<and> \<not> closed ?b \<and> length (messages ?b) < capacity
             \<and> process ?b [] = ([], ?b, [])"
    by (simp add: Start_def Subscribe_def NewBus_def capacity_def process_def)
  have hs: "getHandlers ?b ?m =
      [\<lparr>hid = 1, Handle = \<lambda>m w. (None, w @ [1])\<rparr>,
       \<lparr>hid = 2, Handle = \<lambda>m w. (Some (HandlerError ''boom''), w @ [2])\<rparr>,
       \<lparr>hid = 3, Handle = \<lambda>m w. (Some (HandlerError ''late''), w @ [3])\<rparr>]"
    by (simp add: Start_def Subscribe_def NewBus_def getHandlers_def)
  from sync_dispatch_first_error[of ?b ?m "[]" "[]" ?b "[]" True, THEN conjunct2, rule_format, OF pre]
  show ?thesis unfolding hs by (simp add: invoke_all_def)
qed

text \<open>A new bus, started, then stopped twice.\<close>

theorem Stop_twice_panics_witness:
  "started (snd (Start (NewBus :: unit bus))) \<and> \<not> closed (snd (Start (NewBus :: unit bus)))
   \<and> fst (Stop (snd (Start (NewBus :: unit bus))) Background ()) = Inr ()
   \<and> fst (Stop (fst (snd (Stop (snd (Start (NewBus :: unit bus))) Background ()))) Background ())
       = Inl (Panic ''close of closed channel'')"
proof -
  let ?b = "snd (Start (NewBus :: unit bus))"
  have s: "started ?b" and c: "\<not> closed ?b"
    by (simp_all add: Start_def NewBus_def)
  have r: "Stop ?b Background () =
             (fst (Stop ?b Background ()), fst (snd (Stop ?b Background ())), ())"
    by (cases "Stop ?b Background ()") simp
  have ok: "fst (Stop ?b Background ()) = Inr ()"
    by (simp add: Stop_def Start_def NewBus_def process_def)
  from Stop_twice_panics[OF s c r, of Background "()"] s c ok show ?thesis by blast
qed

section \<open>Properties of the container\<close>

subsection \<open>The bindings are changed by registration only\<close>

lemma keeps_bindingsD: "keeps_bindings mk \<Longrightarrow> mk c a = (r, c') \<Longrightarrow> bindings c' = bindings c"
  unfolding keeps_bindings_def by blast

lemma set_field_bindings: "set_field E c addr i v = Inr c2 \<Longrightarrow> bindings c2 = bindings c"
  by (auto simp: set_field_def Let_def split: if_splits option.splits)

lemma autowire_fields_bindings:
  assumes mk: "keeps_bindings mk"
  shows "autowire_fields mk E c addr is = (r, c') \<Longrightarrow> bindings c' = bindings c"
proof (induction "is" arbitrary: c)
  case Nil
  then show ?case by simp
next
  case (Cons i rest)
  note IH = Cons.IH
  let ?field = "heap c ! addr ! i"
  let ?abs = "as_abstract (if type_kind (ftype ?field) = Interface then None else Some (ftype ?field))"
  obtain r1 c1 where m: "mk c ?abs = (r1, c1)" by (cases "mk c ?abs")
  from keeps_bindingsD[OF mk m] have b1: "bindings c1 = bindings c" .
  show ?case
  proof (cases r1)
    case (Inl f)
    with Cons.prems m b1 IH[of c] IH[of c1] show ?thesis
      by (auto simp: Let_def split: if_splits failure.splits)
  next
    case (Inr v)
    show ?thesis
    proof (cases "set_field E c1 addr i v")
      case (Inl f)
      with Cons.prems m b1 Inr IH[of c] show ?thesis
        by (auto simp: Let_def split: if_splits)
    next
      case (Inr c2)
      from set_field_bindings[OF Inr] b1 have "bindings c2 = bindings c" by simp
      with Cons.prems m \<open>r1 = Inr v\<close> Inr IH[of c] IH[of c2] show ?thesis
        by (auto simp: Let_def split: if_splits)
    qed
  qed
qed

lemma AutoWire_bindings:
  assumes mk: "keeps_bindings mk"
  shows "AutoWire mk E c target = (r, c') \<Longrightarrow> bindings c' = bindings c"
  using autowire_fields_bindings[OF mk]
  by (auto simp: AutoWire_def split: val.splits gotype.splits option.splits if_splits)

lemma build_args_bindings:
  assumes mk: "keeps_bindings mk"
  shows "build_args mk c params ts i args = (r, c') \<Longrightarrow> bindings c' = bindings c"
proof (induction ts arbitrary: c i args)
  case Nil
  then show ?case by simp
next
  case (Cons t rest)
  obtain r1 c1 where m: "mk c (AType t) = (r1, c1)" by (cases "mk c (AType t)")
  from keeps_bindingsD[OF mk m] have b1: "bindings c1 = bindings c" .
  with Cons.prems m Cons.IH[of c1] show ?case
    by (auto simp: Let_def split: sum.splits failure.splits)
qed

lemma built_bindings:
  assumes mk: "keeps_bindings mk"
  shows "built mk E c typ results = (r, c') \<Longrightarrow> bindings c' = bindings c"
  using AutoWire_bindings[OF mk]
  by (auto simp: built_def split: option.splits list.splits if_splits prod.splits sum.splits)

lemma build_bindings:
  assumes mk: "keeps_bindings mk"
    and b: "build mk E c conc params = (r, c')"
  shows "bindings c' = bindings c"
  proof (cases "TypeOf conc")
    case None
    with b show ?thesis by (simp add: build_def)
  next
    case (Some ty)
    show ?thesis
    proof (cases "type_kind ty \<noteq> Func")
      case True
      with b Some AutoWire_bindings[OF mk, of E c conc] show ?thesis
        by (auto simp: build_def split: if_splits prod.splits sum.splits)
    next
      case False
      obtain r1 c1 where ba: "build_args mk c params (In ty) 0 (replicate (NumIn ty) Nil) = (r1, c1)"
        by (cases "build_args mk c params (In ty) 0 (replicate (NumIn ty) Nil)")
      from build_args_bindings[OF mk ba] have b1: "bindings c1 = bindings c" .
      show ?thesis
      proof (cases r1)
        case (Inl f)
        with b Some False ba b1 show ?thesis
          by (auto simp: build_def split: if_splits)
      next
        case (Inr args)
        obtain r2 h where cl: "Call E conc args (heap c1) = (r2, h)"
          by (cases "Call E conc args (heap c1)")
        show ?thesis
        proof (cases r2)
          case (Inl f)
          with b Some False ba b1 Inr cl show ?thesis
            by (auto simp: build_def split: if_splits)
        next
          case (Inr results)
          with b Some False ba b1 \<open>r1 = Inr args\<close> cl
            built_bindings[OF mk, of E "c1\<lparr>heap := h\<rparr>" ty results r c']
          show ?thesis
            by (auto simp: build_def split: if_splits)
        qed
      qed
    qed
  qed

lemma instantiate_bindings:
  assumes mk: "keeps_bindings mk"
  shows "instantiate mk E c b params = (r, c') \<Longrightarrow> bindings c' = bindings c"
  using build_bindings[OF mk, of E c "concrete b" params r c']
  by (auto simp: instantiate_def split: option.splits prod.splits)

lemma MakeWith_bindings:
  "MakeWith n E locked c a params = (r, c') \<Longrightarrow> bindings c' = bindings c"
proof (induction n arbitrary: c a params r c')
  case 0
  then show ?case by simp
next
  case (Suc n)
  have mk: "keeps_bindings (\<lambda>c' a. MakeWith n E locked c' a [])"
    unfolding keeps_bindings_def using Suc.IH by blast
  from Suc.prems instantiate_bindings[OF mk] show ?case
    by (auto split: sum.splits option.splits if_splits prod.splits)
qed

lemma Make_keeps_bindings: "keeps_bindings (Make n E locked)"
  unfolding keeps_bindings_def Make_def using MakeWith_bindings by blast

subsection \<open>Singletons\<close>

lemma register_Inr:
  "register abstract b c = (Inr u, c') \<Longrightarrow>
     \<exists>key. getKey abstract = Inr key \<and> c' = c\<lparr>bindings := (bindings c)(key \<mapsto> b)\<rparr>"
  by (auto simp: register_def split: sum.splits)

lemma register_singletons: "singletons (snd (register abstract b c)) = singletons c"
  by (simp add: register_def split: sum.splits)

lemma Make_shared_caches:
  assumes "getKey a = Inr key" and "bindings c key = Some b" and "shared b"
    and "Make n E False c a = (Inr inst, c')"
  shows "singletons c' key = Some inst \<and> bindings c' = bindings c"
proof (cases n)
  case 0
  with assms show ?thesis by (simp add: Make_def)
next
  case (Suc m)
  have mk: "keeps_bindings (\<lambda>c' a. MakeWith m E False c' a [])"
    using Make_keeps_bindings[of m E False] by (simp add: Make_def[abs_def])
  show ?thesis
  proof (cases "singletons c key")
    case (Some v)
    with assms Suc show ?thesis by (simp add: Make_def)
  next
    case None
    obtain r1 c1 where i: "instantiate (\<lambda>c' a. MakeWith m E False c' a []) E c b [] = (r1, c1)"
      by (cases "instantiate (\<lambda>c' a. MakeWith m E False c' a []) E c b []")
    from instantiate_bindings[OF mk i] have "bindings c1 = bindings c" .
    with assms Suc None i show ?thesis
      by (auto simp: Make_def split: sum.splits)
  qed
qed

lemma Make_cached:
  assumes "getKey a = Inr key" and "bindings c key = Some b" and "shared b"
    and "singletons c key = Some inst"
  shows "MakeWith (Suc m) E locked c a params = (Inr inst, c)"
  using assms by simp

text \<open>
  Claim C7. A key is registered with \<open>Singleton\<close>; a first \<open>Make\<close> for the key
  succeeds. Then the instance it returned is in the singleton cache under the key, and a
  second \<open>Make\<close> for the key returns the same instance and changes nothing, whatever
  depth of calls it is allowed.
\<close>

theorem Singleton_Make_twice:
  assumes "Singleton abstract conc c0 = (Inr (), c)"
    and "getKey a = getKey abstract"
    and "Make n E False c a = (Inr inst, c')"
  shows "(\<exists>key. getKey a = Inr key \<and> singletons c' key = Some inst)
         \<and> Make (Suc m) E False c' a = (Inr inst, c')"
proof -
  let ?b = "\<lparr>concrete = conc, factory = None, shared = True, tags = []\<rparr>"
  from assms(1) obtain key where k: "getKey abstract = Inr key"
    and c: "c = c0\<lparr>bindings := (bindings c0)(key \<mapsto> ?b)\<rparr>"
    unfolding Singleton_def by (blast dest: register_Inr)
  from c have b: "bindings c key = Some ?b" by simp
  from k assms(2) have ka: "getKey a = Inr key" by simp
  from Make_shared_caches[OF ka b _ assms(3)]
  have s: "singletons c' key = Some inst" and b': "bindings c' key = Some ?b"
    using b by simp_all
  from Make_cached[OF ka b' _ s] have "Make (Suc m) E False c' a = (Inr inst, c')"
    unfolding Make_def by simp
  with ka s show ?thesis by blast
qed

text \<open>
  Claim C3. No registration (\<open>Bind\<close>, \<open>Singleton\<close>, \<open>Factory\<close>, \<open>BindTagged\<close>)
  changes the singleton cache. And after \<open>Singleton(k, A)\<close>, a \<open>Make(k)\<close> that
  succeeds with an instance, and \<open>Singleton(k, B)\<close>, the next \<open>Make(k)\<close> returns that
  instance again, not one made from \<open>B\<close>.
\<close>

theorem singleton_cache_kept:
  "singletons (snd (Bind abstract' v c)) = singletons c
   \<and> singletons (snd (Singleton abstract' v c)) = singletons c
   \<and> singletons (snd (Factory abstract' f c)) = singletons c
   \<and> singletons (snd (BindTagged abstract' v ts c)) = singletons c
   \<and> (Singleton abstract A c0 = (Inr (), c1) \<and> getKey a = getKey abstract
        \<and> Make n E False c1 a = (Inr inst, c2) \<and> Singleton abstract B c2 = (r, c3)
      \<longrightarrow> r = Inr () \<and> singletons c3 = singletons c2
          \<and> Make (Suc m) E False c3 a = (Inr inst, c3))"
proof -
  have reg: "singletons (snd (Bind abstract' v c)) = singletons c
    \<and> singletons (snd (Singleton abstract' v c)) = singletons c
    \<and> singletons (snd (Factory abstract' f c)) = singletons c
    \<and> singletons (snd (BindTagged abstract' v ts c)) = singletons c"
    by (simp add: Bind_def Singleton_def Factory_def BindTagged_def register_singletons)
  have scen: "r = Inr () \<and> singletons c3 = singletons c2
          \<and> Make (Suc m) E False c3 a = (Inr inst, c3)"
    if a: "Singleton abstract A c0 = (Inr (), c1) \<and> getKey a = getKey abstract
        \<and> Make n E False c1 a = (Inr inst, c2) \<and> Singleton abstract B c2 = (r, c3)"
  proof -
  let ?bA = "\<lparr>concrete = A, factory = None, shared = True, tags = []\<rparr>"
  let ?bB = "\<lparr>concrete = B, factory = None, shared = True, tags = []\<rparr>"
  from a obtain key where k: "getKey abstract = Inr key"
    and c1: "c1 = c0\<lparr>bindings := (bindings c0)(key \<mapsto> ?bA)\<rparr>"
    unfolding Singleton_def by (blast dest: register_Inr)
  from a k have ka: "getKey a = Inr key" by simp
  from c1 have b1: "bindings c1 key = Some ?bA" by simp
  from a have m1: "Make n E False c1 a = (Inr inst, c2)" by simp
  from Make_shared_caches[OF ka b1 _ m1] have s2: "singletons c2 key = Some inst" by simp
  from a k have r: "r = Inr ()" and c3: "c3 = c2\<lparr>bindings := (bindings c2)(key \<mapsto> ?bB)\<rparr>"
    by (simp_all add: Singleton_def register_def)
  from c3 have b3: "bindings c3 key = Some ?bB" and s3: "singletons c3 = singletons c2"
    by simp_all
  from s2 s3 have s3k: "singletons c3 key = Some inst" by simp
  from Make_cached[OF ka b3 _ s3k] have "Make (Suc m) E False c3 a = (Inr inst, c3)"
    unfolding Make_def by simp
    with r s3 show ?thesis by simp
  qed
  from reg scen show ?thesis by blast
qed

text \<open>
  What \<open>build\<close> stores in \<open>args[i]\<close> from \<open>params\<close> is overwritten by what
  \<open>Make\<close> returns for the parameter, or lost with the error of \<open>Make\<close>: the
  parameter map has no effect on \<open>MakeWith\<close>.
\<close>

lemma apply_params_overwritten:
  "(apply_params ps t i args)[i := v] = args[i := v]"
  by (induction ps arbitrary: args) auto

lemma build_args_ignores_params:
  "build_args mk c params ts i args = build_args mk c [] ts i args"
proof (induction ts arbitrary: c i args)
  case Nil
  show ?case by simp
next
  case (Cons t rest)
  show ?case
    by (simp add: Let_def apply_params_overwritten Cons.IH[of _ "Suc i"]
          split: prod.splits sum.splits failure.splits)
qed

lemma build_ignores_params:
  "build mk E c conc params = build mk E c conc []"
  unfolding build_def using build_args_ignores_params[of mk c params]
  by (simp split: option.splits)

lemma MakeWith_ignores_params:
  "MakeWith n E locked c a params = MakeWith n E locked c a []"
proof (cases n)
  case 0
  then show ?thesis by simp
next
  case (Suc m)
  have "instantiate (\<lambda>c' a. MakeWith m E locked c' a []) E c b params =
        instantiate (\<lambda>c' a. MakeWith m E locked c' a []) E c b []" for b
    unfolding instantiate_def using build_ignores_params[of _ E c _ params]
    by (simp split: option.splits)
  with Suc show ?thesis by (simp split: sum.splits option.splits)
qed

subsection \<open>Fields that hold a value\<close>

lemma untouched_refl: "untouched h h"
  by (simp add: untouched_def)

lemma untouched_trans: "untouched h1 h2 \<Longrightarrow> untouched h2 h3 \<Longrightarrow> untouched h1 h3"
  unfolding untouched_def by metis

lemma untouched_set:
  assumes "untouched h h1" and "addr < length h" and "i < length (h ! addr)"
    and "IsZero (h ! addr ! i)"
  shows "untouched h (h1[addr := (h1 ! addr)[i := x]])"
  unfolding untouched_def
proof (intro allI impI)
  fix a j
  assume p: "a < length h \<and> j < length (h ! a) \<and> \<not> IsZero (h ! a ! j)"
  with assms(1) have q: "a < length h1" "j < length (h1 ! a)" "h1 ! a ! j = h ! a ! j"
    unfolding untouched_def by blast+
  show "a < length (h1[addr := (h1 ! addr)[i := x]])
        \<and> j < length (h1[addr := (h1 ! addr)[i := x]] ! a)
        \<and> h1[addr := (h1 ! addr)[i := x]] ! a ! j = h ! a ! j"
  proof (cases "a = addr")
    case True
    with p assms(4) have "j \<noteq> i" by auto
    with True q show ?thesis by simp
  next
    case False
    with q show ?thesis by simp
  qed
qed

lemma framesD:
  "frames E mk \<Longrightarrow> user_code_ok E (bindings c) \<Longrightarrow> mk c a = (r, c')
     \<Longrightarrow> untouched (heap c) (heap c')"
  unfolding frames_def by blast

lemma set_field_frame:
  assumes "set_field E c1 addr i v = Inr c2" and "untouched h (heap c1)"
    and "addr < length h" and "i < length (h ! addr)" and "IsZero (h ! addr ! i)"
  shows "untouched h (heap c2)"
  using assms untouched_set[OF assms(2-5)]
  by (auto simp: set_field_def Let_def split: if_splits option.splits)

lemma autowire_fields_frame:
  assumes kb: "keeps_bindings mk" and fr: "frames E mk"
  shows "user_code_ok E (bindings c) \<Longrightarrow> autowire_fields mk E c addr is = (r, c')
           \<Longrightarrow> untouched (heap c) (heap c')"
proof (induction "is" arbitrary: c)
  case Nil
  then show ?case by (simp add: untouched_refl)
next
  case (Cons i rest)
  note ok = Cons.prems(1) and run = Cons.prems(2)
  show ?case
  proof (cases "addr < length (heap c) \<and> i < length (heap c ! addr)")
    case False
    with run show ?thesis by (auto simp: untouched_refl)
  next
    case inb: True
    let ?field = "heap c ! addr ! i"
    let ?abs = "as_abstract (if type_kind (ftype ?field) = Interface then None else Some (ftype ?field))"
    show ?thesis
    proof (cases "(inject ?field = [] \<and> \<not> Anonymous ?field) \<or> \<not> IsZero ?field
                  \<or> (type_kind (ftype ?field) \<noteq> Interface \<and> type_kind (ftype ?field) \<noteq> Ptr)")
      case True
      with run inb have "autowire_fields mk E c addr rest = (r, c')"
        by (auto simp: Let_def split: if_splits)
      from Cons.IH[OF ok this] show ?thesis .
    next
      case False
      then have z: "IsZero ?field" by blast
      obtain r1 c1 where m: "mk c ?abs = (r1, c1)" by (cases "mk c ?abs")
      from keeps_bindingsD[OF kb m] have b1: "bindings c1 = bindings c" .
      from framesD[OF fr ok m] have u1: "untouched (heap c) (heap c1)" .
      from ok b1 have ok1: "user_code_ok E (bindings c1)" by simp
      show ?thesis
      proof (cases r1)
        case (Inl f)
        from run inb False m Inl
        have "(r, c') = (Inl f, c1) \<or> (\<exists>e. r = Inl (Err (FieldFailed (Name ?field) e)) \<and> c' = c1)
               \<or> autowire_fields mk E c1 addr rest = (r, c')"
          by (auto simp: Let_def split: if_splits failure.splits)
        with u1 Cons.IH[OF ok1] show ?thesis
          by (auto intro: untouched_trans)
      next
        case (Inr v)
        show ?thesis
        proof (cases "set_field E c1 addr i v")
          case (Inl f)
          with run inb False m Inr have "c' = c1"
            by (auto simp: Let_def split: if_splits)
          with u1 show ?thesis by simp
        next
          case sf: (Inr c2)
          from set_field_frame[OF sf u1 _ _ z] inb
          have u2: "untouched (heap c) (heap c2)" by simp
          from set_field_bindings[OF sf] b1 ok have ok2: "user_code_ok E (bindings c2)" by simp
          from run inb False m Inr sf have "autowire_fields mk E c2 addr rest = (r, c')"
            by (auto simp: Let_def split: if_splits)
          from Cons.IH[OF ok2 this] u2 show ?thesis by (rule untouched_trans[rotated])
        qed
      qed
    qed
  qed
qed

lemma AutoWire_frame:
  assumes kb: "keeps_bindings mk" and fr: "frames E mk"
    and ok: "user_code_ok E (bindings c)" and run: "AutoWire mk E c target = (r, c')"
  shows "untouched (heap c) (heap c')"
  using run autowire_fields_frame[OF kb fr ok]
  by (auto simp: AutoWire_def untouched_refl split: val.splits gotype.splits option.splits if_splits)

lemma build_args_frame:
  assumes kb: "keeps_bindings mk" and fr: "frames E mk"
  shows "user_code_ok E (bindings c) \<Longrightarrow> build_args mk c params ts i args = (r, c')
           \<Longrightarrow> untouched (heap c) (heap c')"
proof (induction ts arbitrary: c i args)
  case Nil
  then show ?case by (simp add: untouched_refl)
next
  case (Cons t rest)
  obtain r1 c1 where m: "mk c (AType t) = (r1, c1)" by (cases "mk c (AType t)")
  from keeps_bindingsD[OF kb m] Cons.prems(1) have ok1: "user_code_ok E (bindings c1)" by simp
  from framesD[OF fr Cons.prems(1) m] have u1: "untouched (heap c) (heap c1)" .
  show ?case
  proof (cases r1)
    case (Inl f)
    with Cons.prems(2) m have "c' = c1" by (auto simp: Let_def split: failure.splits)
    with u1 show ?thesis by simp
  next
    case (Inr v)
    with Cons.prems(2) m
    have "build_args mk c1 params rest (Suc i) ((apply_params params t i args)[i := v]) = (r, c')"
      by (simp add: Let_def)
    from Cons.IH[OF ok1 this] u1 show ?thesis by (rule untouched_trans[rotated])
  qed
qed

lemma built_frame:
  assumes kb: "keeps_bindings mk" and fr: "frames E mk"
    and ok: "user_code_ok E (bindings c)" and run: "built mk E c ty results = (r, c')"
  shows "untouched (heap c) (heap c')"
  using run AutoWire_frame[OF kb fr ok]
  by (auto simp: built_def untouched_refl
           split: option.splits list.splits if_splits prod.splits sum.splits)

lemma Call_frame:
  assumes "user_code_ok E bs" and "Call E fn args h = (r, h')"
  shows "untouched h h'"
proof -
  from assms(1) have u: "call E f args h = (r, h') \<Longrightarrow> untouched h h'" for f
    unfolding user_code_ok_def by (metis snd_conv)
  from assms(2) show ?thesis
    using u by (auto simp: Call_def untouched_refl split: val.splits option.splits)
qed

lemma build_frame:
  assumes kb: "keeps_bindings mk" and fr: "frames E mk"
    and ok: "user_code_ok E (bindings c)" and b: "build mk E c conc params = (r, c')"
  shows "untouched (heap c) (heap c')"
proof (cases "TypeOf conc")
  case None
  with b show ?thesis by (simp add: build_def untouched_refl)
next
  case (Some ty)
  show ?thesis
  proof (cases "type_kind ty \<noteq> Func")
    case True
    with b Some AutoWire_frame[OF kb fr ok, of conc] show ?thesis
      by (auto simp: build_def untouched_refl split: if_splits prod.splits sum.splits)
  next
    case False
    obtain r1 c1 where ba: "build_args mk c params (In ty) 0 (replicate (NumIn ty) Nil) = (r1, c1)"
      by (cases "build_args mk c params (In ty) 0 (replicate (NumIn ty) Nil)")
    from build_args_bindings[OF kb ba] have b1: "bindings c1 = bindings c" .
    from build_args_frame[OF kb fr ok ba] have u1: "untouched (heap c) (heap c1)" .
    show ?thesis
    proof (cases r1)
      case (Inl f)
      with b Some False ba u1 show ?thesis
        by (auto simp: build_def untouched_refl split: if_splits)
    next
      case (Inr args)
      obtain r2 h where cl: "Call E conc args (heap c1) = (r2, h)"
        by (cases "Call E conc args (heap c1)")
      from Call_frame[OF ok cl] u1 have u2: "untouched (heap c) h"
        by (rule untouched_trans[rotated])
      show ?thesis
      proof (cases r2)
        case (Inl f)
        with b Some False ba Inr cl u2 u1 show ?thesis
          by (auto simp: build_def untouched_refl split: if_splits)
      next
        case res: (Inr results)
        from ok b1 have ok2: "user_code_ok E (bindings (c1\<lparr>heap := h\<rparr>))" by simp
        from b Some False ba Inr cl res
        have "(r = Inl (Err BadConstructor) \<and> c' = c)
              \<or> built mk E (c1\<lparr>heap := h\<rparr>) ty results = (r, c')"
          by (auto simp: build_def split: if_splits)
        then show ?thesis
        proof
          assume "r = Inl (Err BadConstructor) \<and> c' = c"
          then show ?thesis by (simp add: untouched_refl)
        next
          assume "built mk E (c1\<lparr>heap := h\<rparr>) ty results = (r, c')"
          from built_frame[OF kb fr ok2 this] have "untouched h (heap c')" by simp
          with u2 show ?thesis by (rule untouched_trans)
        qed
      qed
    qed
  qed
qed

lemma instantiate_frame:
  assumes kb: "keeps_bindings mk" and fr: "frames E mk"
    and ok: "user_code_ok E (bindings c)" and inb: "bindings c key = Some b"
    and run: "instantiate mk E c b params = (r, c')"
  shows "untouched (heap c) (heap c')"
proof (cases "factory b")
  case None
  with run build_frame[OF kb fr ok] show ?thesis by (simp add: instantiate_def)
next
  case (Some f)
  from ok inb Some have "untouched (heap c) (snd (f (heap c)))"
    unfolding user_code_ok_def by blast
  with run Some show ?thesis by (auto simp: instantiate_def split: prod.splits)
qed

lemma MakeWith_frame:
  "user_code_ok E (bindings c) \<Longrightarrow> MakeWith n E locked c a params = (r, c')
     \<Longrightarrow> untouched (heap c) (heap c')"
proof (induction n arbitrary: c a params r c')
  case 0
  then show ?case by (simp add: untouched_refl)
next
  case (Suc n)
  have kb: "keeps_bindings (\<lambda>c' a. MakeWith n E locked c' a [])"
    using Make_keeps_bindings[of n E locked] by (simp add: Make_def[abs_def])
  have fr: "frames E (\<lambda>c' a. MakeWith n E locked c' a [])"
    unfolding frames_def using Suc.IH by blast
  note inst = instantiate_frame[OF kb fr Suc.prems(1)]
  from Suc.prems(2) show ?case
    by (auto simp: untouched_refl split: sum.splits option.splits if_splits prod.splits
             dest: inst)
qed

lemma Make_frames: "frames E (Make n E locked)"
  unfolding frames_def Make_def using MakeWith_frame by blast

subsection \<open>Tagged\<close>

lemma build_each_append:
  "build_each mk E c (xs @ ys) acc =
     (case build_each mk E c xs acc of
        (Inl f, c1) \<Rightarrow> (Inl f, c1)
      | (Inr acc1, c1) \<Rightarrow> build_each mk E c1 ys acc1)"
  by (induction xs arbitrary: c acc) (auto split: prod.splits sum.splits)

lemma tagged_tags_build_each:
  "tagged_tags mk E c key b tag ts acc =
     build_each mk E c (map (\<lambda>t. (key, b)) (filter (\<lambda>t. t = tag) ts)) acc"
  by (induction ts arbitrary: c acc)
     (auto simp: resolve_tagged_def split: prod.splits sum.splits option.splits)

lemma resolve_tagged_bindings:
  "keeps_bindings mk \<Longrightarrow> resolve_tagged mk E c key b = (r, c') \<Longrightarrow> bindings c' = bindings c"
  by (auto simp: resolve_tagged_def split: option.splits if_splits dest: instantiate_bindings)

lemma build_each_bindings:
  assumes kb: "keeps_bindings mk"
  shows "build_each mk E c xs acc = (r, c') \<Longrightarrow> bindings c' = bindings c"
proof (induction xs arbitrary: c acc)
  case Nil
  then show ?case by simp
next
  case (Cons x xs)
  obtain key b where x: "x = (key, b)" by (cases x)
  obtain r1 c1 where rt: "resolve_tagged mk E c key b = (r1, c1)"
    by (cases "resolve_tagged mk E c key b")
  from resolve_tagged_bindings[OF kb rt] have "bindings c1 = bindings c" .
  with Cons.prems x rt Cons.IH[of c1] show ?case
    by (auto split: sum.splits)
qed

lemma tagged_keys_build_each:
  assumes kb: "keeps_bindings mk"
  shows "tagged_keys mk E c tag order acc =
           build_each mk E c (tag_occurrences (bindings c) order tag) acc"
proof (induction order arbitrary: c acc)
  case Nil
  show ?case by (simp add: tag_occurrences_def)
next
  case (Cons key order)
  show ?case
  proof (cases "bindings c key")
    case None
    with Cons.IH[of c acc] show ?thesis by (simp add: tag_occurrences_def)
  next
    case (Some b)
    let ?xs = "map (\<lambda>t. (key, b)) (filter (\<lambda>t. t = tag) (tags b))"
    have occ: "tag_occurrences (bindings c) (key # order) tag =
                 ?xs @ tag_occurrences (bindings c) order tag"
      using Some by (simp add: tag_occurrences_def)
    obtain r1 c1 where be: "build_each mk E c ?xs acc = (r1, c1)"
      by (cases "build_each mk E c ?xs acc")
    from build_each_bindings[OF kb be] have b1: "bindings c1 = bindings c" .
    show ?thesis
    proof (cases r1)
      case (Inl f)
      with Some be show ?thesis
        by (simp add: occ build_each_append tagged_tags_build_each)
    next
      case (Inr acc1)
      with Some be b1 Cons.IH[of c1 acc1] show ?thesis
        by (simp add: occ build_each_append tagged_tags_build_each)
    qed
  qed
qed

lemma build_each_length:
  "build_each mk E c xs acc = (Inr instances, c') \<Longrightarrow> length instances = length acc + length xs"
proof (induction xs arbitrary: c acc)
  case Nil
  then show ?case by simp
next
  case (Cons x xs)
  obtain key b where x: "x = (key, b)" by (cases x)
  from Cons.prems x Cons.IH show ?case
    by (fastforce split: prod.splits sum.splits)
qed

lemma length_filter_count: "length (filter (\<lambda>t. t = tag) ts) = count_list ts tag"
  by (induction ts) auto

lemma length_tag_occurrences:
  "length (tag_occurrences bs order tag) =
     (\<Sum>key\<leftarrow>order. case bs key of None \<Rightarrow> 0 | Some b \<Rightarrow> count_list (tags b) tag)"
  by (induction order) (auto simp: tag_occurrences_def length_filter_count split: option.splits)

lemma count_at_most_once:
  assumes "\<forall>key b. bs key = Some b \<longrightarrow> count_list (tags b) tag \<le> 1"
  shows "(\<Sum>key\<leftarrow>order. case bs key of None \<Rightarrow> 0 | Some b \<Rightarrow> count_list (tags b) tag) =
         length (filter (\<lambda>key. case bs key of None \<Rightarrow> False | Some b \<Rightarrow> tag \<in> set (tags b)) order)"
proof (induction order)
  case Nil
  show ?case by simp
next
  case (Cons key order)
  show ?case
  proof (cases "bs key")
    case None
    with Cons show ?thesis by simp
  next
    case (Some b)
    with assms have le: "count_list (tags b) tag \<le> 1" by blast
    have "count_list (tags b) tag = (if tag \<in> set (tags b) then 1 else 0)"
      using le count_list_0_iff[of "tags b" tag] by (cases "tag \<in> set (tags b)") auto
    with Some Cons show ?thesis by simp
  qed
qed

text \<open>
  \<open>Tagged\<close> always ends in one of two ways: with a list that has one instance for each
  occurrence, or at the first occurrence whose resolution yields no instance, with the
  outcome of that resolution.
\<close>

lemma build_each_total:
  "(\<exists>instances c'. build_each mk E c xs acc0 = (Inr instances, c')
       \<and> length instances = length acc0 + length xs)
   \<or> (\<exists>pre key b post acc c1 f c2.
         xs = pre @ (key, b) # post
       \<and> build_each mk E c pre acc0 = (Inr acc, c1)
       \<and> resolve_tagged mk E c1 key b = (Inl f, c2)
       \<and> build_each mk E c xs acc0 = (Inl f, c2))"
proof (induction xs arbitrary: c acc0)
  case Nil
  show ?case by simp
next
  case (Cons x xs)
  obtain key b where x: "x = (key, b)" by (cases x)
  obtain r1 c1 where rt: "resolve_tagged mk E c key b = (r1, c1)"
    by (cases "resolve_tagged mk E c key b")
  show ?case
  proof (cases r1)
    case (Inl f)
    have "x # xs = [] @ (key, b) # xs" using x by simp
    moreover have "build_each mk E c [] acc0 = (Inr acc0, c)" by simp
    moreover have "resolve_tagged mk E c key b = (Inl f, c1)" using rt Inl by simp
    moreover have "build_each mk E c (x # xs) acc0 = (Inl f, c1)" using x rt Inl by simp
    ultimately show ?thesis by blast
  next
    case (Inr v)
    then have step: "build_each mk E c (x # ys) acc0 = build_each mk E c1 ys (acc0 @ [v])" for ys
      using x rt by simp
    from Cons.IH[of c1 "acc0 @ [v]"] show ?thesis
    proof
      assume "\<exists>instances c'. build_each mk E c1 xs (acc0 @ [v]) = (Inr instances, c')
                \<and> length instances = length (acc0 @ [v]) + length xs"
      then show ?thesis using step[of xs] by auto
    next
      assume "\<exists>pre key b post acc c1' f c2.
                xs = pre @ (key, b) # post
              \<and> build_each mk E c1 pre (acc0 @ [v]) = (Inr acc, c1')
              \<and> resolve_tagged mk E c1' key b = (Inl f, c2)
              \<and> build_each mk E c1 xs (acc0 @ [v]) = (Inl f, c2)"
      then obtain pre k' b' post acc c1' f c2 where
        d: "xs = pre @ (k', b') # post"
        and p: "build_each mk E c1 pre (acc0 @ [v]) = (Inr acc, c1')"
        and r: "resolve_tagged mk E c1' k' b' = (Inl f, c2)"
        and t: "build_each mk E c1 xs (acc0 @ [v]) = (Inl f, c2)" by blast
      have "x # xs = (x # pre) @ (k', b') # post" using d by simp
      moreover have "build_each mk E c (x # pre) acc0 = (Inr acc, c1')" using step[of pre] p by simp
      moreover have "build_each mk E c (x # xs) acc0 = (Inl f, c2)" using step[of xs] t by simp
      ultimately show ?thesis using r by blast
    qed
  qed
qed

text \<open>Bindings that hold finished instances are resolved to these, and nothing changes.\<close>

lemma autowire_fields_passed_over:
  "addr < length (heap c) \<Longrightarrow>
   \<forall>i \<in> set is. i < length (heap c ! addr) \<and> passed_over (heap c ! addr ! i) \<Longrightarrow>
   autowire_fields mk E c addr is = (Inr (), c)"
  by (induction "is") (auto simp: passed_over_def Let_def)

lemma resolve_prebuilt:
  assumes "prebuilt (heap c) b"
  shows "resolve_tagged mk E c key b = (Inr (concrete b), c)"
proof -
  from assms have f: "factory b = None" and s: "\<not> shared b"
    by (simp_all add: prebuilt_def)
  have "build mk E c (concrete b) [] = (Inr (concrete b), c)"
  proof (cases "concrete b")
    case Nil
    with assms show ?thesis by (simp add: prebuilt_def)
  next
    case (Function ins outs g)
    with assms show ?thesis by (simp add: prebuilt_def)
  next
    case (Plain name payload)
    then show ?thesis by (simp add: build_def)
  next
    case (Pointer t a)
    show ?thesis
    proof (cases "\<exists>name. t = StructT name")
      case False
      with Pointer show ?thesis by (cases t) (simp_all add: build_def)
    next
      case True
      then obtain name where t: "t = StructT name" by blast
      with assms Pointer obtain addr where a: "a = Some addr"
        and inb: "addr < length (heap c)" and po: "list_all passed_over (heap c ! addr)"
        by (auto simp: prebuilt_def split: option.splits)
      from po have "\<forall>i \<in> set [0 ..< length (heap c ! addr)].
                      i < length (heap c ! addr) \<and> passed_over (heap c ! addr ! i)"
        by (simp add: list_all_length)
      from autowire_fields_passed_over[OF inb this]
      have "AutoWire mk E c (concrete b) = (Inr (), c)"
        using Pointer t a inb by (simp add: AutoWire_def)
      with Pointer t show ?thesis by (simp add: build_def)
    qed
  qed
  with f s show ?thesis by (simp add: resolve_tagged_def instantiate_def)
qed

lemma build_each_prebuilt:
  "\<forall>kb \<in> set xs. prebuilt (heap c) (snd kb) \<Longrightarrow>
   build_each mk E c xs acc = (Inr (acc @ map (\<lambda>kb. concrete (snd kb)) xs), c)"
proof (induction xs arbitrary: acc)
  case Nil
  show ?case by simp
next
  case (Cons x xs)
  obtain key b where x: "x = (key, b)" by (cases x)
  with Cons.prems have "prebuilt (heap c) b" by simp
  from resolve_prebuilt[OF this, of mk E key] Cons.IH[of "acc @ [concrete b]"] Cons.prems x
  show ?case by simp
qed

lemma tag_occurrences_carry:
  "kb \<in> set (tag_occurrences bs order tag) \<Longrightarrow>
     bs (fst kb) = Some (snd kb) \<and> tag \<in> set (tags (snd kb))"
  by (auto simp: tag_occurrences_def split: option.splits)

text \<open>
  Claim C4, as the code has it. \<open>Tagged\<close> resolves one instance for each time the tag
  stands in the tag list of a binding, walking the bindings in the order of the map and
  the tags in the order of the list, and goes no further than the first resolution that
  yields no instance. It ends in one of two ways: with a list that has one instance for
  each of these occurrences, or at the first occurrence whose resolution fails, with that
  failure and no list. It does return the list, and changes nothing, when the bindings
  that carry the tag hold finished instances. The list it returns has one instance for
  each occurrence; that is one for each binding that carries the tag when no binding
  lists the tag twice.
\<close>

theorem Tagged_one_instance_per_occurrence:
  "Tagged n E c order tag =
     build_each (Make n E True) E c (tag_occurrences (bindings c) order tag) []
   \<and> ((\<exists>instances c'. Tagged n E c order tag = (Inr instances, c')
          \<and> length instances =
              (\<Sum>key\<leftarrow>order. case bindings c key of None \<Rightarrow> 0
                               | Some b \<Rightarrow> count_list (tags b) tag))
       \<or> (\<exists>pre key b post acc c1 f c2.
            tag_occurrences (bindings c) order tag = pre @ (key, b) # post
          \<and> build_each (Make n E True) E c pre [] = (Inr acc, c1)
          \<and> resolve_tagged (Make n E True) E c1 key b = (Inl f, c2)
          \<and> Tagged n E c order tag = (Inl f, c2)))
   \<and> ((\<forall>key b. bindings c key = Some b \<and> tag \<in> set (tags b) \<longrightarrow> prebuilt (heap c) b) \<longrightarrow>
        Tagged n E c order tag =
          (Inr (map (\<lambda>kb. concrete (snd kb)) (tag_occurrences (bindings c) order tag)), c))
   \<and> (Tagged n E c order tag = (Inr instances, c') \<longrightarrow>
        length instances =
          (\<Sum>key\<leftarrow>order. case bindings c key of None \<Rightarrow> 0 | Some b \<Rightarrow> count_list (tags b) tag))
   \<and> (Tagged n E c order tag = (Inr instances, c')
        \<and> (\<forall>key b. bindings c key = Some b \<longrightarrow> count_list (tags b) tag \<le> 1) \<longrightarrow>
        length instances =
          length (filter (\<lambda>key. case bindings c key of None \<Rightarrow> False
                                 | Some b \<Rightarrow> tag \<in> set (tags b)) order))
   \<and> (tag_occurrences (bindings c) order tag = pre @ (key, b) # post
        \<and> build_each (Make n E True) E c pre [] = (Inr acc, c1)
        \<and> resolve_tagged (Make n E True) E c1 key b = (Inl f, c2) \<longrightarrow>
        Tagged n E c order tag = (Inl f, c2))"
proof -
  let ?occ = "tag_occurrences (bindings c) order tag"
  let ?N = "\<Sum>key\<leftarrow>order. case bindings c key of None \<Rightarrow> 0 | Some b \<Rightarrow> count_list (tags b) tag"
  have ref: "Tagged n E c order tag = build_each (Make n E True) E c ?occ []"
    unfolding Tagged_def by (rule tagged_keys_build_each[OF Make_keeps_bindings])
  have tot: "(\<exists>instances c'. Tagged n E c order tag = (Inr instances, c')
                \<and> length instances = ?N)
       \<or> (\<exists>pre key b post acc c1 f c2.
            ?occ = pre @ (key, b) # post
          \<and> build_each (Make n E True) E c pre [] = (Inr acc, c1)
          \<and> resolve_tagged (Make n E True) E c1 key b = (Inl f, c2)
          \<and> Tagged n E c order tag = (Inl f, c2))"
    using build_each_total[of "Make n E True" E c ?occ "[]"]
    by (simp add: ref length_tag_occurrences)
  have pre: "Tagged n E c order tag = (Inr (map (\<lambda>kb. concrete (snd kb)) ?occ), c)"
    if h: "\<forall>key b. bindings c key = Some b \<and> tag \<in> set (tags b) \<longrightarrow> prebuilt (heap c) b"
  proof -
    have "\<forall>kb \<in> set ?occ. prebuilt (heap c) (snd kb)"
      using h tag_occurrences_carry[of _ "bindings c" order tag] by blast
    from build_each_prebuilt[OF this, of "Make n E True" E "[]"] show ?thesis
      by (simp add: ref)
  qed
  have len: "length instances = ?N"
    if "Tagged n E c order tag = (Inr instances, c')"
    using that build_each_length[of "Make n E True" E c _ "[]" instances c']
    by (simp add: ref length_tag_occurrences)
  have one: "length instances =
          length (filter (\<lambda>key. case bindings c key of None \<Rightarrow> False
                                 | Some b \<Rightarrow> tag \<in> set (tags b)) order)"
    if "Tagged n E c order tag = (Inr instances, c')"
      and "\<forall>key b. bindings c key = Some b \<longrightarrow> count_list (tags b) tag \<le> 1"
    using len[OF that(1)] count_at_most_once[OF that(2), of order] by simp
  have fail: "Tagged n E c order tag = (Inl f, c2)"
    if "?occ = pre @ (key, b) # post"
      and "build_each (Make n E True) E c pre [] = (Inr acc, c1)"
      and "resolve_tagged (Make n E True) E c1 key b = (Inl f, c2)"
    using that by (simp add: ref build_each_append)
  from ref tot pre len one fail show ?thesis by blast
qed

text \<open>
  Claim C8. A field of any struct in memory that holds a value other than zero before
  \<open>AutoWire\<close> is called holds the same value after the call, whatever the target, the
  bindings and the outcome of the call, provided that the constructors and factories of
  the bindings do not themselves write to such a field.
\<close>

theorem AutoWire_never_overwrites:
  assumes "user_code_ok E (bindings c)"
    and "AutoWire (Make n E locked) E c target = (r, c')"
    and "addr < length (heap c)" and "i < length (heap c ! addr)"
    and "\<not> IsZero (heap c ! addr ! i)"
  shows "addr < length (heap c') \<and> i < length (heap c' ! addr)
         \<and> heap c' ! addr ! i = heap c ! addr ! i"
proof -
  from AutoWire_frame[OF Make_keeps_bindings Make_frames assms(1,2)]
  have "untouched (heap c) (heap c')" .
  with assms(3-5) show ?thesis unfolding untouched_def by blast
qed

lemma no_user_code_ok: "user_code_ok no_user_code Map.empty"
  by (simp add: user_code_ok_def no_user_code_def untouched_refl)

text \<open>
  One step of the loop of \<open>AutoWire\<close> on a field that is to be injected and is zero. For
  a field of interface type the key is asked of a nil type, and the call panics, optional
  or not. For a field of pointer type whose key has no binding, the field is passed over
  when it is tagged \<open>optional\<close>, and the call returns the error otherwise.
\<close>

lemma interface_field_panics:
  assumes "addr < length (heap c)" and "i < length (heap c ! addr)"
    and "inject (heap c ! addr ! i) \<noteq> [] \<or> Anonymous (heap c ! addr ! i)"
    and "IsZero (heap c ! addr ! i)"
    and "type_kind (ftype (heap c ! addr ! i)) = Interface"
  shows "autowire_fields (Make (Suc n) E locked) E c addr (i # rest) =
           (Inl (Panic ''invalid memory address or nil pointer dereference''), c)"
  using assms by (auto simp: Let_def Make_def)

lemma optional_pointer_field_skipped:
  assumes "addr < length (heap c)" and "i < length (heap c ! addr)"
    and "inject (heap c ! addr ! i) = ''optional''"
    and "IsZero (heap c ! addr ! i)"
    and "type_kind (ftype (heap c ! addr ! i)) = Ptr"
    and "bindings c (type_string (ftype (heap c ! addr ! i))) = None"
  shows "autowire_fields (Make (Suc n) E locked) E c addr (i # rest) =
           autowire_fields (Make (Suc n) E locked) E c addr rest"
  using assms by (simp add: Let_def Make_def)

lemma required_pointer_field_fails:
  assumes "addr < length (heap c)" and "i < length (heap c ! addr)"
    and "inject (heap c ! addr ! i) \<noteq> [] \<or> Anonymous (heap c ! addr ! i)"
    and "inject (heap c ! addr ! i) \<noteq> ''optional''"
    and "IsZero (heap c ! addr ! i)"
    and "type_kind (ftype (heap c ! addr ! i)) = Ptr"
    and "bindings c (type_string (ftype (heap c ! addr ! i))) = None"
  shows "autowire_fields (Make (Suc n) E locked) E c addr (i # rest) =
           (Inl (Err (FieldFailed (Name (heap c ! addr ! i))
                       (NoBinding (type_string (ftype (heap c ! addr ! i)))))), c)"
  using assms by (auto simp: Let_def Make_def)

subsection \<open>The container on examples\<close>

lemma TestService_key:
  "getKey TestService = Inr ''*di.TestService''"
  "getKey TestService_type = Inr ''*di.TestService''"
  by (simp_all add: TestService_def TestService_type_def)

text \<open>
  Claim C1, on the code: a constructor with one parameter of type \<open>string\<close> is bound,
  and \<open>MakeWith\<close> is given a value under the key \<open>string\<close>. The value is not used:
  the parameter is asked of the container, which has no binding for it, and the call
  returns that error.
\<close>

theorem MakeWith_override_not_used:
  "MakeWith (Suc (Suc n)) E False (snd (Bind TestService newService (NewContainer [])))
     TestService_type name_override
   = (Inl (Err (ArgFailed 0 (NoBinding ''string''))),
      snd (Bind TestService newService (NewContainer [])))"
  by (simp add: Bind_def register_def TestService_key NewContainer_def newService_def
        name_override_def instantiate_def build_def NumOut_def NumIn_def Let_def)

text \<open>
  Claim C9, on the code: the target has one field of interface type tagged
  \<open>inject:"optional"\<close>, not set, and the container has no binding at all. \<open>AutoWire\<close>
  does not return nil: it panics when it computes the key.
\<close>

theorem AutoWire_optional_interface_field_panics:
  "AutoWire (Make (Suc n) E False) E (NewContainer [TestStructOptional]) optional_target
   = (Inl (Panic ''invalid memory address or nil pointer dereference''),
      NewContainer [TestStructOptional])"
  by (simp add: AutoWire_def optional_target_def NewContainer_def TestStructOptional_def
        IsZero_def Make_def Let_def)

text \<open>
  Claim C4 as stated fails: one binding, registered with the tag list
  \<open>["mytag", "mytag"]\<close>, gives two instances for \<open>Tagged("mytag")\<close>.
\<close>

theorem Tagged_repeated_tag_counterexample:
  "Tagged (Suc 0) no_user_code
     (snd (BindTagged TestService (service 0) [''mytag'', ''mytag''] (NewContainer [testServiceImpl 1])))
     [''*di.TestService''] ''mytag''
   = (Inr [service 0, service 0],
      snd (BindTagged TestService (service 0) [''mytag'', ''mytag''] (NewContainer [testServiceImpl 1])))"
  by (simp add: Tagged_def BindTagged_def register_def TestService_key NewContainer_def
        instantiate_def build_def service_def AutoWire_def testServiceImpl_def Let_def)

text \<open>The test \<open>TestContainer_Singleton\<close>: one service, registered and made twice.\<close>

theorem Singleton_Make_twice_witness:
  "Singleton TestService (service 0) (NewContainer [testServiceImpl 1])
     = (Inr (), snd (Singleton TestService (service 0) (NewContainer [testServiceImpl 1])))
   \<and> getKey TestService_type = getKey TestService
   \<and> fst (Make (Suc 0) no_user_code False
            (snd (Singleton TestService (service 0) (NewContainer [testServiceImpl 1])))
            TestService_type) = Inr (service 0)
   \<and> Make (Suc 0) no_user_code False
        (snd (Make (Suc 0) no_user_code False
               (snd (Singleton TestService (service 0) (NewContainer [testServiceImpl 1])))
               TestService_type))
        TestService_type
      = (Inr (service 0),
         snd (Make (Suc 0) no_user_code False
               (snd (Singleton TestService (service 0) (NewContainer [testServiceImpl 1])))
               TestService_type))"
proof -
  let ?c1 = "snd (Singleton TestService (service 0) (NewContainer [testServiceImpl 1]))"
  let ?m = "Make (Suc 0) no_user_code False ?c1 TestService_type"
  have h1: "Singleton TestService (service 0) (NewContainer [testServiceImpl 1]) = (Inr (), ?c1)"
    by (simp add: Singleton_def register_def TestService_key)
  have h2: "getKey TestService_type = getKey TestService"
    by (simp add: TestService_key)
  have f: "fst ?m = Inr (service 0)"
    by (simp add: Make_def Singleton_def register_def TestService_key NewContainer_def
          instantiate_def build_def service_def AutoWire_def testServiceImpl_def Let_def)
  then have h3: "?m = (Inr (service 0), snd ?m)"
    by (metis prod.collapse)
  from Singleton_Make_twice[OF h1 h2 h3, of 0] h1 h2 f show ?thesis by simp
qed

text \<open>
  Two services: the first is registered as singleton and made, the second is registered
  as singleton under the same key, and \<open>Make\<close> still returns the first.
\<close>

theorem singleton_cache_kept_witness:
  "Singleton TestService (service 0) (NewContainer [testServiceImpl 1, testServiceImpl 2])
     = (Inr (), snd (Singleton TestService (service 0)
                      (NewContainer [testServiceImpl 1, testServiceImpl 2])))
   \<and> getKey TestService_type = getKey TestService
   \<and> fst (Make (Suc 0) no_user_code False
            (snd (Singleton TestService (service 0)
                    (NewContainer [testServiceImpl 1, testServiceImpl 2])))
            TestService_type) = Inr (service 0)
   \<and> fst (Make (Suc 0) no_user_code False
            (snd (Singleton TestService (service 1)
               (snd (Make (Suc 0) no_user_code False
                  (snd (Singleton TestService (service 0)
                          (NewContainer [testServiceImpl 1, testServiceImpl 2])))
                  TestService_type))))
            TestService_type) = Inr (service 0)"
proof -
  let ?c1 = "snd (Singleton TestService (service 0)
                    (NewContainer [testServiceImpl 1, testServiceImpl 2]))"
  let ?m = "Make (Suc 0) no_user_code False ?c1 TestService_type"
  let ?s2 = "Singleton TestService (service 1) (snd ?m)"
  have h1: "Singleton TestService (service 0)
              (NewContainer [testServiceImpl 1, testServiceImpl 2]) = (Inr (), ?c1)"
    by (simp add: Singleton_def register_def TestService_key)
  have h2: "getKey TestService_type = getKey TestService"
    by (simp add: TestService_key)
  have f: "fst ?m = Inr (service 0)"
    by (simp add: Make_def Singleton_def register_def TestService_key NewContainer_def
          instantiate_def build_def service_def AutoWire_def testServiceImpl_def Let_def)
  then have h3: "?m = (Inr (service 0), snd ?m)"
    by (metis prod.collapse)
  have h4: "?s2 = (fst ?s2, snd ?s2)" by simp
  from singleton_cache_kept[of _ _ _ _ _ TestService "service 0"
         "NewContainer [testServiceImpl 1, testServiceImpl 2]" ?c1 TestService_type
         "Suc 0" no_user_code "service 0" "snd ?m" "service 1" "fst ?s2" "snd ?s2" 0]
       h1 h2 h3 h4
  have "Make (Suc 0) no_user_code False (snd ?s2) TestService_type = (Inr (service 0), snd ?s2)"
    by blast
  with h1 h2 f show ?thesis by simp
qed

text \<open>
  The struct with one field set by the caller and one nil: \<open>AutoWire\<close> leaves the first
  and fills the second from the container.
\<close>

theorem AutoWire_never_overwrites_witness:
  "user_code_ok no_user_code (bindings preset_container)
   \<and> fst (AutoWire (Make (Suc 0) no_user_code False) no_user_code preset_container preset_target)
       = Inr ()
   \<and> \<not> IsZero (heap preset_container ! 2 ! 0)
   \<and> heap (snd (AutoWire (Make (Suc 0) no_user_code False) no_user_code
                  preset_container preset_target)) ! 2 ! 0
       = heap preset_container ! 2 ! 0
   \<and> fvalue (heap (snd (AutoWire (Make (Suc 0) no_user_code False) no_user_code
                          preset_container preset_target)) ! 2 ! 1)
       = service 1"
proof -
  let ?run = "AutoWire (Make (Suc 0) no_user_code False) no_user_code preset_container preset_target"
  have ok: "user_code_ok no_user_code (bindings preset_container)"
    by (simp add: user_code_ok_def no_user_code_def untouched_refl preset_container_def
          Bind_def register_def NewContainer_def)
  have key: "bindings preset_container ''*di.testServiceImpl'' =
               Some \<lparr>concrete = service 1, factory = None, shared = False, tags = []\<rparr>"
    by (simp add: preset_container_def Bind_def register_def NewContainer_def)
  have hp: "heap preset_container = preset_memory"
    by (simp add: preset_container_def Bind_def register_def NewContainer_def)
  have mk: "Make (Suc 0) no_user_code False preset_container
              (AType (PtrTo (StructT ''di.testServiceImpl''))) = (Inr (service 1), preset_container)"
    by (simp add: Make_def key hp instantiate_def build_def service_def AutoWire_def
          preset_memory_def testServiceImpl_def Let_def)
  have run: "?run = (Inr (), preset_container\<lparr>heap := preset_memory[2 :=
               (preset_memory ! 2)[1 := (preset_memory ! 2 ! 1)\<lparr>fvalue := service 1\<rparr>]]\<rparr>)"
  proof -
    have idx: "[0 ..< (2::nat)] = [0, Suc 0]"
      by (simp add: numeral_2_eq_2 upt_conv_Cons)
    have f0: "preset_memory ! 2 ! 0 = TestStructPreset ! 0" and f1: "preset_memory ! 2 ! Suc 0 = TestStructPreset ! Suc 0"
      and l1: "length preset_memory = 3" and l2: "length (preset_memory ! 2) = 2"
      by (simp_all add: preset_memory_def TestStructPreset_def)
    have z0: "\<not> IsZero (TestStructPreset ! 0)" and z1: "IsZero (TestStructPreset ! Suc 0)"
      by (simp_all add: TestStructPreset_def IsZero_def service_def)
    have t1: "ftype (TestStructPreset ! Suc 0) = PtrTo (StructT ''di.testServiceImpl'')"
      "inject (TestStructPreset ! Suc 0) = ''required''" "exported (TestStructPreset ! Suc 0)"
      "inject (TestStructPreset ! 0) = ''required''"
      by (simp_all add: TestStructPreset_def)
    have sf: "set_field no_user_code preset_container 2 (Suc 0) (service (Suc 0)) =
                Inr (preset_container\<lparr>heap := preset_memory[2 :=
                   (preset_memory ! 2)[Suc 0 := (TestStructPreset ! Suc 0)\<lparr>fvalue := service (Suc 0)\<rparr>]]\<rparr>)"
      by (simp add: set_field_def hp l1 l2 f1 t1 AssignableTo_def service_def Let_def)
    show ?thesis
      unfolding AutoWire_def preset_target_def
      by (simp add: hp l1 l2 idx f0 f1 z0 z1 t1 mk sf Let_def del: upt_Suc)
  qed
  have b1: "2 < length (heap preset_container)" and b2: "0 < length (heap preset_container ! 2)"
    and nz: "\<not> IsZero (heap preset_container ! 2 ! 0)"
    by (simp_all add: hp preset_memory_def TestStructPreset_def IsZero_def service_def)
  from AutoWire_never_overwrites[OF ok run b1 b2 nz]
  have keep: "heap (snd ?run) ! 2 ! 0 = heap preset_container ! 2 ! 0"
    by (simp only: run snd_conv)
  have set: "fvalue (heap (snd ?run) ! 2 ! 1) = service 1"
    by (simp add: run preset_memory_def TestStructPreset_def)
  from ok run nz keep set show ?thesis by simp
qed

text \<open>
  A binding tagged \<open>["mytag", "other"]\<close> that holds a finished instance: \<open>Tagged\<close>
  returns that one instance. A binding whose constructor cannot be resolved: \<open>Tagged\<close>
  returns the error.
\<close>

theorem Tagged_one_instance_per_occurrence_witness:
  "Tagged (Suc 0) no_user_code
     (snd (BindTagged TestService (service 0) [''mytag'', ''other''] (NewContainer [testServiceImpl 1])))
     [''*di.TestService''] ''mytag''
   = (Inr [service 0],
      snd (BindTagged TestService (service 0) [''mytag'', ''other''] (NewContainer [testServiceImpl 1])))
   \<and> length (filter
         (\<lambda>key. case bindings (snd (BindTagged TestService (service 0) [''mytag'', ''other'']
                                      (NewContainer [testServiceImpl 1]))) key of
                   None \<Rightarrow> False | Some b \<Rightarrow> ''mytag'' \<in> set (tags b))
         [''*di.TestService'']) = length [service 0]
   \<and> Tagged (Suc 0) no_user_code
         (snd (BindTagged TestService newService [''mytag''] (NewContainer [])))
         [''*di.TestService''] ''mytag''
       = (Inl (Err (ArgFailed 0 (NoBinding ''string''))),
          snd (BindTagged TestService newService [''mytag''] (NewContainer [])))"
proof -
  let ?ca = "snd (BindTagged TestService (service 0) [''mytag'', ''other''] (NewContainer [testServiceImpl 1]))"
  let ?cb = "snd (BindTagged TestService newService [''mytag''] (NewContainer []))"
  let ?a = "\<lparr>concrete = service 0, factory = None, shared = False, tags = [''mytag'', ''other'']\<rparr>"
  let ?b = "\<lparr>concrete = newService, factory = None, shared = False, tags = [''mytag'']\<rparr>"
  let ?mk = "Make (Suc 0) no_user_code True"
  have ba: "bindings ?ca = [''*di.TestService'' \<mapsto> ?a]" and ha: "heap ?ca = [testServiceImpl 1]"
    by (simp_all add: BindTagged_def register_def TestService_key NewContainer_def)
  have "prebuilt [testServiceImpl 1] ?a"
    by (simp add: prebuilt_def service_def testServiceImpl_def passed_over_def)
  then have finished: "\<forall>key b. bindings ?ca key = Some b \<and> ''mytag'' \<in> set (tags b)
                         \<longrightarrow> prebuilt (heap ?ca) b"
    unfolding ba ha by (auto split: if_splits)
  have once: "\<forall>key b. bindings ?ca key = Some b \<longrightarrow> count_list (tags b) ''mytag'' \<le> 1"
    unfolding ba by (auto split: if_splits)
  have occa: "tag_occurrences (bindings ?ca) [''*di.TestService''] ''mytag'' =
                [(''*di.TestService'', ?a)]"
    unfolding ba by (simp add: tag_occurrences_def)
  have occ: "tag_occurrences (bindings ?cb) [''*di.TestService''] ''mytag'' =
               [] @ (''*di.TestService'', ?b) # []"
    by (simp add: tag_occurrences_def BindTagged_def register_def TestService_key NewContainer_def)
  have pre: "build_each ?mk no_user_code ?cb [] [] = (Inr [], ?cb)"
    by simp
  have fails: "resolve_tagged ?mk no_user_code ?cb ''*di.TestService'' ?b =
                 (Inl (Err (ArgFailed 0 (NoBinding ''string''))), ?cb)"
    by (simp add: resolve_tagged_def instantiate_def build_def newService_def NumOut_def
          NumIn_def Make_def BindTagged_def register_def TestService_key NewContainer_def Let_def)
  note a = Tagged_one_instance_per_occurrence
             [of "Suc 0" no_user_code ?ca "[''*di.TestService'']" "''mytag''" "[service 0]" ?ca]
  note b = Tagged_one_instance_per_occurrence
             [of "Suc 0" no_user_code ?cb "[''*di.TestService'']" "''mytag''" _ _
                 "[]" "''*di.TestService''" ?b "[]" "[]" ?cb
                 "Err (ArgFailed 0 (NoBinding ''string''))" ?cb]
  from a finished
  have "Tagged (Suc 0) no_user_code ?ca [''*di.TestService''] ''mytag'' =
          (Inr (map (\<lambda>kb. concrete (snd kb))
                  (tag_occurrences (bindings ?ca) [''*di.TestService''] ''mytag'')), ?ca)"
    by blast
  then have ta: "Tagged (Suc 0) no_user_code ?ca [''*di.TestService''] ''mytag'' =
                   (Inr [service 0], ?ca)"
    unfolding occa by simp
  from a ta once have len: "length [service 0] =
      length (filter (\<lambda>key. case bindings ?ca key of None \<Rightarrow> False
                             | Some b \<Rightarrow> ''mytag'' \<in> set (tags b)) [''*di.TestService''])"
    by blast
  from b occ pre fails have tb: "Tagged (Suc 0) no_user_code ?cb [''*di.TestService''] ''mytag''
       = (Inl (Err (ArgFailed 0 (NoBinding ''string''))), ?cb)"
    by blast
  from ta len tb show ?thesis by simp
qed

text \<open>
  \<open>Tagged\<close> holds the read lock of the container while it builds. A tagged constructor
  whose parameter is a singleton not yet made has \<open>Make\<close> build the singleton and then
  wait for the write lock, which the same call holds for reading: \<open>Tagged\<close> does not
  return. This is one of the failures at which \<open>Tagged\<close> ends without a list.
\<close>

lemma Tagged_waits_for_its_own_lock:
  "Tagged (Suc n) E dependent_container
     [''*di.testServiceImpl'', ''*di.TestService''] ''mytag''
   = (Inl Blocked, dependent_container)"
proof -
  have k: "getKey (AValue (Pointer (StructT ''di.testServiceImpl'') None)) = Inr ''*di.testServiceImpl''"
    by simp
  show ?thesis
    by (simp add: Tagged_def dependent_container_def BindTagged_def Singleton_def register_def
          TestService_key k NewContainer_def instantiate_def build_def newDependent_def
          NumOut_def NumIn_def Make_def service_def AutoWire_def testServiceImpl_def Let_def)
qed

end
